theory Spec2Isabelle
  imports Main
begin

section \<open>Strings and regular-expression replacement\<close>

text \<open>
  The exporter and the file-name helper are chains of \<open>String.prototype.replace\<close> calls with
  global regular expressions. A string is a list of code units; the model uses HOL's \<open>char\<close>,
  that is the code units below 256. The patterns of the source use literals, single character
  classes, a greedy \<open>{n,}\<close> or \<open>*\<close> and a lazy \<open>*?\<close> over one character class, capture groups
  around such a repetition, the anchors \<open>^\<close> and \<open>$\<close>, and one top-level alternation. The
  matcher below is a backtracking matcher for exactly this fragment, with the priorities of
  the language: greedy repetition tries the longest run first, lazy repetition the shortest,
  alternatives are tried left to right, and the leftmost match wins.
\<close>

abbreviation NL :: char where "NL \<equiv> CHR 0x0A"
abbreviation CR :: char where "CR \<equiv> CHR 0x0D"

definition code_unit :: "char \<Rightarrow> nat" where
  "code_unit c = of_char c"

definition between :: "char \<Rightarrow> char \<Rightarrow> char \<Rightarrow> bool" where
  "between lo hi c = (code_unit lo \<le> code_unit c \<and> code_unit c \<le> code_unit hi)"

definition is_lower :: "char \<Rightarrow> bool" where
  "is_lower c = between CHR ''a'' CHR ''z'' c"

definition is_upper :: "char \<Rightarrow> bool" where
  "is_upper c = between CHR ''A'' CHR ''Z'' c"

definition is_digit :: "char \<Rightarrow> bool" where
  "is_digit c = between CHR ''0'' CHR ''9'' c"

text \<open>
  Case folding of the \<open>i\<close> flag (without the \<open>u\<close> flag): a code unit is compared by its upper
  case, and a code unit from 128 on never folds to one below 128. Every character written in
  the patterns of the source is below 128, so folding the letters a to z is all that a
  comparison against a pattern character can see.
\<close>

definition canonicalize :: "bool \<Rightarrow> char \<Rightarrow> char" where
  "canonicalize ignore_case c =
     (if ignore_case \<and> is_lower c then char_of (code_unit c - 32) else c)"

definition uncanonicalize :: "char \<Rightarrow> char" where
  "uncanonicalize c = (if is_upper c then char_of (code_unit c + 32) else c)"

datatype cls =
    Dot                           \<comment> \<open>\<open>.\<close>: any code unit but a line terminator\<close>
  | Chr char                      \<comment> \<open>the character itself, as in \<open>_{2,}\<close>\<close>
  | NotChr char                   \<comment> \<open>\<open>[^c]\<close>\<close>
  | NotRanges "(char \<times> char) list"  \<comment> \<open>\<open>[^a-b...]\<close>\<close>

definition in_ranges :: "(char \<times> char) list \<Rightarrow> char \<Rightarrow> bool" where
  "in_ranges rs c = list_ex (\<lambda>(lo, hi). between lo hi c) rs"

fun cls_match :: "bool \<Rightarrow> cls \<Rightarrow> char \<Rightarrow> bool" where
  "cls_match i Dot c = (c \<noteq> NL \<and> c \<noteq> CR)"
| "cls_match i (Chr d) c = (canonicalize i d = canonicalize i c)"
| "cls_match i (NotChr d) c = (canonicalize i d \<noteq> canonicalize i c)"
| "cls_match i (NotRanges rs) c =
     (\<not> (in_ranges rs c \<or> (i \<and> (in_ranges rs (canonicalize i c) \<or> in_ranges rs (uncanonicalize c)))))"

datatype piece =
    Lit char          \<comment> \<open>a literal character\<close>
  | One cls           \<comment> \<open>one character of a class\<close>
  | Rep nat cls       \<comment> \<open>greedy \<open>{n,}\<close>; \<open>Rep 0\<close> is \<open>*\<close>\<close>
  | Lazy cls          \<comment> \<open>lazy \<open>*?\<close>\<close>
  | Bol               \<comment> \<open>\<open>^\<close>\<close>
  | Eol               \<comment> \<open>\<open>$\<close>\<close>

type_synonym matched = "string list \<times> string"

definition skip_piece :: "matched option \<Rightarrow> matched option" where
  "skip_piece r = map_option (\<lambda>(parts, rest). ([] # parts, rest)) r"

definition take_char :: "char \<Rightarrow> matched option \<Rightarrow> matched option" where
  "take_char x r = map_option (\<lambda>(parts, rest). ([x] # parts, rest)) r"

definition push_char :: "char \<Rightarrow> matched \<Rightarrow> matched" where
  "push_char x r = (case r of (p # parts, rest) \<Rightarrow> ((x # p) # parts, rest)
                            | ([], rest) \<Rightarrow> ([[x]], rest))"

text \<open>
  \<open>match_pieces i bol ps s\<close> matches the pieces \<open>ps\<close> at the start of \<open>s\<close>; \<open>bol\<close> says
  whether \<open>s\<close> starts at the beginning of the input. The result is the text consumed by each
  piece and the unconsumed rest.
\<close>

fun match_pieces :: "bool \<Rightarrow> bool \<Rightarrow> piece list \<Rightarrow> string \<Rightarrow> matched option" where
  "match_pieces i bol [] s = Some ([], s)"
| "match_pieces i bol (Lit c # ps) s =
     (case s of [] \<Rightarrow> None
      | x # xs \<Rightarrow> if canonicalize i c = canonicalize i x
                  then take_char x (match_pieces i False ps xs) else None)"
| "match_pieces i bol (One k # ps) s =
     (case s of [] \<Rightarrow> None
      | x # xs \<Rightarrow> if cls_match i k x
                  then take_char x (match_pieces i False ps xs) else None)"
| "match_pieces i bol (Bol # ps) s =
     (if bol then skip_piece (match_pieces i bol ps s) else None)"
| "match_pieces i bol (Eol # ps) s =
     (if s = [] then skip_piece (match_pieces i bol ps s) else None)"
| "match_pieces i bol (Rep n k # ps) s =
     (case s of
        [] \<Rightarrow> if n = 0 then skip_piece (match_pieces i bol ps s) else None
      | x # xs \<Rightarrow>
          if cls_match i k x then
            (case match_pieces i False (Rep (n - 1) k # ps) xs of
               Some r \<Rightarrow> Some (push_char x r)
             | None \<Rightarrow> if n = 0 then skip_piece (match_pieces i bol ps s) else None)
          else if n = 0 then skip_piece (match_pieces i bol ps s) else None)"
| "match_pieces i bol (Lazy k # ps) s =
     (case skip_piece (match_pieces i bol ps s) of
        Some r \<Rightarrow> Some r
      | None \<Rightarrow>
          (case s of [] \<Rightarrow> None
           | x # xs \<Rightarrow>
               if cls_match i k x
               then map_option (push_char x) (match_pieces i False (Lazy k # ps) xs)
               else None))"

text \<open>
  A pattern is a list of alternatives; an alternative is a list of pieces, each marked as
  captured or not. The captured texts are the groups \<open>$1\<close>, \<open>$2\<close>, ... of the replacement.
\<close>

type_synonym alt = "(bool \<times> piece) list"
type_synonym regex = "alt list"

definition groups_of :: "alt \<Rightarrow> string list \<Rightarrow> string list" where
  "groups_of a parts = map snd (filter (\<lambda>(p, t). fst p) (zip a parts))"

fun match_alts :: "bool \<Rightarrow> bool \<Rightarrow> regex \<Rightarrow> string \<Rightarrow> (string list \<times> string) option" where
  "match_alts i bol [] s = None"
| "match_alts i bol (a # as) s =
     (case match_pieces i bol (map snd a) s of
        Some (parts, rest) \<Rightarrow> Some (groups_of a parts, rest)
      | None \<Rightarrow> match_alts i bol as s)"

datatype tpart = Txt string | Grp nat

fun subst_part :: "string list \<Rightarrow> tpart \<Rightarrow> string" where
  "subst_part gs (Txt t) = t"
| "subst_part gs (Grp n) =
     (if 1 \<le> n \<and> n \<le> length gs then gs ! (n - 1)
      else [CHR ''$'', char_of (48 + n)])"

definition subst :: "tpart list \<Rightarrow> string list \<Rightarrow> string" where
  "subst tmpl gs = concat (map (subst_part gs) tmpl)"

text \<open>
  \<open>replace_all\<close> is \<open>s.replace(/re/g, tmpl)\<close> (with the \<open>i\<close> flag when \<open>i\<close> holds): scan from
  the left; where the pattern matches, emit the replacement and go on behind the match (one
  character further when the match is empty); where it does not, copy one character.
\<close>

function replace_all :: "bool \<Rightarrow> regex \<Rightarrow> tpart list \<Rightarrow> bool \<Rightarrow> string \<Rightarrow> string" where
  "replace_all i re tmpl bol s =
     (case match_alts i bol re s of
        Some (gs, rest) \<Rightarrow>
          if length rest < length s then subst tmpl gs @ replace_all i re tmpl False rest
          else (case s of [] \<Rightarrow> subst tmpl gs
                | x # xs \<Rightarrow> subst tmpl gs @ x # replace_all i re tmpl False xs)
      | None \<Rightarrow>
          (case s of [] \<Rightarrow> []
           | x # xs \<Rightarrow> x # replace_all i re tmpl False xs))"
  by pat_completeness auto
termination
  by (relation "measure (\<lambda>(i, re, tmpl, bol, s). length s)") auto

definition lits :: "string \<Rightarrow> alt" where
  "lits s = map (\<lambda>c. (False, Lit c)) s"

subsection \<open>sanitizeFilename\<close>

text \<open>
  \<^verbatim>\<open>title.replace(/[^a-z0-9]/gi, '_').replace(/_{2,}/g, '_').replace(/^_|_$/g, '').toLowerCase()\<close>
\<close>

text \<open>
  \<open>toLowerCase\<close> on code units below 256: the letters A to Z and the upper-case letters of
  the range 192 to 222 (all but the multiplication sign, 215) move up by 32.
\<close>

definition lower_char :: "char \<Rightarrow> char" where
  "lower_char c =
     (let n = code_unit c
      in if (65 \<le> n \<and> n \<le> 90) \<or> (192 \<le> n \<and> n \<le> 222 \<and> n \<noteq> 215)
         then char_of (n + 32) else c)"

definition toLowerCase :: "string \<Rightarrow> string" where
  "toLowerCase s = map lower_char s"

definition re_not_alnum :: regex where
  "re_not_alnum = [[(False, One (NotRanges [(CHR ''a'', CHR ''z''), (CHR ''0'', CHR ''9'')]))]]"

definition re_underscores :: regex where
  "re_underscores = [[(False, Rep 2 (Chr CHR ''_''))]]"

definition re_boundary :: regex where
  "re_boundary = [[(False, Bol), (False, Lit CHR ''_'')], [(False, Lit CHR ''_''), (False, Eol)]]"

definition sanitizeFilename :: "string \<Rightarrow> string" where
  "sanitizeFilename title =
     toLowerCase
       (replace_all False re_boundary [] True
         (replace_all False re_underscores [Txt ''_''] True
           (replace_all True re_not_alnum [Txt ''_''] True title)))"

text \<open>
  The steps of \<open>sanitizeFilename\<close> as the specification words them: every character outside
  a-z, A-Z, 0-9 becomes an underscore, runs of underscores collapse to one, an underscore at
  either end is dropped, and the result is lowercased. \<open>squeeze m c\<close> shortens every run of
  more than \<open>m\<close> characters \<open>c\<close> to \<open>m\<close> of them.
\<close>

definition is_alnum :: "char \<Rightarrow> bool" where
  "is_alnum c = (is_lower c \<or> is_upper c \<or> is_digit c)"

definition lead :: "char \<Rightarrow> string \<Rightarrow> nat" where
  "lead c s = length (takeWhile (\<lambda>x. x = c) s)"

fun squeeze :: "nat \<Rightarrow> char \<Rightarrow> string \<Rightarrow> string" where
  "squeeze m c [] = []"
| "squeeze m c (x # xs) =
     (if x = c \<and> m \<le> lead c xs then squeeze m c xs else x # squeeze m c xs)"

definition strip_first :: "char \<Rightarrow> string \<Rightarrow> string" where
  "strip_first c s = (case s of [] \<Rightarrow> [] | x # xs \<Rightarrow> if x = c then xs else s)"

definition strip_last :: "char \<Rightarrow> string \<Rightarrow> string" where
  "strip_last c s = (if s \<noteq> [] \<and> last s = c then butlast s else s)"

definition spec_sanitize :: "string \<Rightarrow> string" where
  "spec_sanitize title =
     toLowerCase (strip_last CHR ''_'' (strip_first CHR ''_''
       (squeeze 1 CHR ''_'' (map (\<lambda>c. if is_alnum c then c else CHR ''_'') title))))"

fun no_pair :: "char \<Rightarrow> string \<Rightarrow> bool" where
  "no_pair c (x # y # r) = (\<not> (x = c \<and> y = c) \<and> no_pair c (y # r))"
| "no_pair c r = True"

subsection \<open>RecapExporter: HTML and Markdown\<close>

datatype export_format = Html | Markdown | Text

record ExportOptions =
  format :: export_format
  title :: "string option"
  includeTitle :: "bool option"

text \<open>
  \<open>exportAsHTML\<close>: the editor's own serialisation \<open>htmlString\<close> (the result of
  \<open>$generateHtmlFromNodes\<close>, an input here), with the title as a heading in front when
  \<open>options.includeTitle && options.title\<close> is truthy.
\<close>

definition exportAsHTML :: "ExportOptions \<Rightarrow> string \<Rightarrow> string" where
  "exportAsHTML options htmlString =
     (case (includeTitle options, title options) of
        (Some True, Some t) \<Rightarrow>
          if t \<noteq> [] then ''<h1>'' @ t @ ''</h1>'' @ [NL] @ htmlString else htmlString
      | _ \<Rightarrow> htmlString)"

text \<open>JavaScript white space and line terminators among the code units below 256.\<close>

definition is_space :: "char \<Rightarrow> bool" where
  "is_space c = (code_unit c \<in> {9, 10, 11, 12, 13, 32, 160})"

definition trim :: "string \<Rightarrow> string" where
  "trim s = rev (dropWhile is_space (rev (dropWhile is_space s)))"

text \<open>
  The patterns of \<open>exportAsMarkdown\<close>: \<open>open_tag name\<close> is \<open><name[^>]*>\<close>, \<open>close_tag name\<close>
  is \<open></name>\<close>, \<open>element name\<close> is \<open><name[^>]*>(.*?)</name>\<close>.
\<close>

definition open_tag :: "string \<Rightarrow> alt" where
  "open_tag name =
     lits (CHR ''<'' # name) @ [(False, Rep 0 (NotChr CHR ''>'')), (False, Lit CHR ''>'')]"

definition close_tag :: "string \<Rightarrow> alt" where
  "close_tag name = lits (''</'' @ name @ ''>'')"

definition element :: "string \<Rightarrow> regex" where
  "element name = [open_tag name @ [(True, Lazy Dot)] @ close_tag name]"

text \<open>\<^verbatim>\<open><a[^>]*href="([^"]*)"[^>]*>(.*?)</a>\<close>; the double quote is the code unit 0x22.\<close>

definition re_link :: regex where
  "re_link =
     [lits ''<a'' @ [(False, Rep 0 (NotChr CHR ''>''))] @ lits (''href='' @ [CHR 0x22])
      @ [(True, Rep 0 (NotChr (CHR 0x22))), (False, Lit (CHR 0x22))]
      @ [(False, Rep 0 (NotChr CHR ''>'')), (False, Lit CHR ''>''), (True, Lazy Dot)]
      @ close_tag ''a'']"

definition re_tag :: regex where
  "re_tag = [[(False, Lit CHR ''<''), (False, Rep 0 (NotChr CHR ''>'')), (False, Lit CHR ''>'')]]"

definition re_newlines :: regex where
  "re_newlines = [[(False, Rep 3 (Chr NL))]]"

text \<open>
  The substitution chain of \<open>exportAsMarkdown\<close>, innermost call first as in the source: the
  headings h1 to h6, paragraphs, strong, b, em, i, the list tags, li, blockquote, links, then
  every remaining tag, runs of three or more newlines, and \<open>trim\<close>. All but the last two
  patterns carry the flags \<open>gi\<close>; the last two carry \<open>g\<close>.
\<close>

definition html_to_markdown :: "string \<Rightarrow> string" where
  "html_to_markdown htmlContent =
    trim
     (replace_all False re_newlines [Txt [NL, NL]] True
     (replace_all False re_tag [] True
     (replace_all True re_link [Txt ''['', Grp 2, Txt '']('', Grp 1, Txt '')''] True
     (replace_all True (element ''blockquote'') [Txt ''> '', Grp 1, Txt [NL]] True
     (replace_all True (element ''li'') [Txt ''- '', Grp 1, Txt [NL]] True
     (replace_all True [close_tag ''ol''] [Txt [NL]] True
     (replace_all True [open_tag ''ol''] [] True
     (replace_all True [close_tag ''ul''] [Txt [NL]] True
     (replace_all True [open_tag ''ul''] [] True
     (replace_all True (element ''i'') [Txt ''*'', Grp 1, Txt ''*''] True
     (replace_all True (element ''em'') [Txt ''*'', Grp 1, Txt ''*''] True
     (replace_all True (element ''b'') [Txt ''**'', Grp 1, Txt ''**''] True
     (replace_all True (element ''strong'') [Txt ''**'', Grp 1, Txt ''**''] True
     (replace_all True (element ''p'') [Grp 1, Txt [NL, NL]] True
     (replace_all True (element ''h6'') [Txt ''###### '', Grp 1, Txt [NL]] True
     (replace_all True (element ''h5'') [Txt ''##### '', Grp 1, Txt [NL]] True
     (replace_all True (element ''h4'') [Txt ''#### '', Grp 1, Txt [NL]] True
     (replace_all True (element ''h3'') [Txt ''### '', Grp 1, Txt [NL]] True
     (replace_all True (element ''h2'') [Txt ''## '', Grp 1, Txt [NL]] True
     (replace_all True (element ''h1'') [Txt ''# '', Grp 1, Txt [NL]] True
        htmlContent))))))))))))))))))))"

definition exportAsMarkdown :: "ExportOptions \<Rightarrow> string \<Rightarrow> string" where
  "exportAsMarkdown options htmlString = html_to_markdown (exportAsHTML options htmlString)"

text \<open>
  A document of plain paragraphs: the HTML is a sequence of \<open><p>t</p>\<close> whose texts hold no
  markup, that is neither \<open><\<close> nor \<open>>\<close>.
\<close>

definition plain_text :: "string \<Rightarrow> bool" where
  "plain_text t = (CHR ''<'' \<notin> set t \<and> CHR ''>'' \<notin> set t)"

definition paragraphs :: "string list \<Rightarrow> string" where
  "paragraphs ts = concat (map (\<lambda>t. ''<p>'' @ t @ ''</p>'') ts)"

text \<open>Predicates used in the proofs about the matcher and the exporter.\<close>

fun piece_ok :: "bool \<Rightarrow> piece \<Rightarrow> string \<Rightarrow> bool" where
  "piece_ok i (Lit c) p = (\<exists>x. p = [x] \<and> canonicalize i c = canonicalize i x)"
| "piece_ok i (One k) p = (\<exists>x. p = [x] \<and> cls_match i k x)"
| "piece_ok i (Rep n k) p = (\<forall>x \<in> set p. cls_match i k x)"
| "piece_ok i (Lazy k) p = (\<forall>x \<in> set p. cls_match i k x)"
| "piece_ok i Bol p = (p = [])"
| "piece_ok i Eol p = (p = [])"

fun no_tag :: "string \<Rightarrow> bool" where
  "no_tag [] = True"
| "no_tag (x # xs) = ((x = CHR ''<'' \<longrightarrow> CHR ''>'' \<notin> set xs) \<and> no_tag xs)"

definition tagged :: "alt \<Rightarrow> bool" where
  "tagged a = (\<exists>ps. map snd a = Lit CHR ''<'' # ps \<and> Lit CHR ''>'' \<in> set ps)"

fun runs_le :: "nat \<Rightarrow> char \<Rightarrow> string \<Rightarrow> bool" where
  "runs_le m c [] = True"
| "runs_le m c (x # xs) = (\<not> (x = c \<and> m \<le> lead c xs) \<and> runs_le m c xs)"

definition cleanup :: "string \<Rightarrow> string" where
  "cleanup s = trim (squeeze 2 NL s)"

section \<open>The recap editor: saving\<close>

text \<open>
  The state variables of the \<open>RecapEditor\<close> component that the save handlers and the
  auto-save effect read and write, as one render sees them. Timeouts are named by their
  identifiers, natural numbers. The other state variables (\<open>htmlContent\<close>,
  \<open>showExportMenu\<close>, \<open>exporter\<close>) are read by neither and are left out.
\<close>

record RecapEditor =
  title :: string
  isSaving :: bool
  hasUnsavedChanges :: bool
  editorState :: string
  autoSaveTimeout :: "nat option"

text \<open>
  What the component does to the outside: a browser alert, a call of the \<open>onSave\<close> callback
  with its two arguments, a console message. Each is recorded with the time and with the
  handler it comes from, \<open>handleAutoSave\<close> or \<open>handleSave\<close>.
\<close>

datatype origin = Auto | Manual

datatype effect = Alert string | OnSave string string | ConsoleError string

text \<open>
  The component over time. \<open>rendered\<close> holds the state variables as the last render saw
  them: the handlers and the effects of that render are closures over these values.
  \<open>current\<close> holds them after every \<open>setState\<close> call made so far; \<open>pendingSince\<close> is the
  time of the first such call that no render has taken up yet. \<open>effectDeps\<close> are the values
  the auto-save effect last ran with, \<open>effectCleanup\<close> the timeout that its clean-up function
  holds, \<open>initDeps\<close> the editor text the initialising effect last ran with. \<open>timers\<close> are
  the pending timeouts: identifier, due time, and the render whose \<open>handleAutoSave\<close> was
  handed to \<open>setTimeout\<close>. \<open>inflight\<close> are the calls of \<open>onSave\<close> whose promise is not
  settled yet.
\<close>

record Editor =
  rendered :: RecapEditor
  current :: RecapEditor
  pendingSince :: "nat option"
  effectDeps :: "RecapEditor option"
  effectCleanup :: "nat option"
  initDeps :: "string option"
  timers :: "(nat \<times> nat \<times> RecapEditor) list"
  nextTimer :: nat
  clock_ed :: nat
  inflight :: "origin list"
  trace :: "(nat \<times> origin \<times> effect) list"

text \<open>\<open>useState(recap?.title || '')\<close> and the other initial values, before the first render.\<close>

definition editor_init :: "string \<Rightarrow> Editor" where
  "editor_init ttl =
     (let v = \<lparr>title = ttl, isSaving = False, hasUnsavedChanges = False, editorState = [],
                autoSaveTimeout = None\<rparr>
      in \<lparr>rendered = v, current = v, pendingSince = None, effectDeps = None, effectCleanup = None,
          initDeps = None, timers = [], nextTimer = 1, clock_ed = 0, inflight = [],
          trace = []\<rparr>)"

text \<open>A state setter: a call that changes nothing asks for no render.\<close>

definition setState :: "(RecapEditor \<Rightarrow> RecapEditor) \<Rightarrow> Editor \<Rightarrow> Editor" where
  "setState f s =
     (if f (current s) = current s then s
      else s\<lparr>current := f (current s),
             pendingSince := Some (case pendingSince s of None \<Rightarrow> clock_ed s | Some t \<Rightarrow> t)\<rparr>)"

definition record_effect :: "origin \<Rightarrow> effect \<Rightarrow> Editor \<Rightarrow> Editor" where
  "record_effect who e s = s\<lparr>trace := trace s @ [(clock_ed s, who, e)]\<rparr>"

definition clear_timer :: "nat \<Rightarrow> Editor \<Rightarrow> Editor" where
  "clear_timer t s = s\<lparr>timers := filter (\<lambda>(i, due, c). i \<noteq> t) (timers s)\<rparr>"

text \<open>
  \<open>handleAutoSave\<close> up to its \<open>await\<close>, as the closure of the render \<open>c\<close>; \<open>handleSave\<close>
  up to its \<open>await\<close>, as the closure of the last render; and what either does once the
  promise of \<open>onSave\<close> is settled, resolved (\<open>saved\<close>) or rejected.
\<close>

definition handleAutoSave :: "RecapEditor \<Rightarrow> Editor \<Rightarrow> Editor" where
  "handleAutoSave c s =
     (if hasUnsavedChanges c \<and> \<not> isSaving c \<and> trim (title c) \<noteq> [] \<and> trim (editorState c) \<noteq> []
      then (record_effect Auto (OnSave (editorState c) (title c))
              (setState (\<lambda>v. v\<lparr>isSaving := True\<rparr>) s))\<lparr>inflight := inflight s @ [Auto]\<rparr>
      else s)"

definition handleSave :: "Editor \<Rightarrow> Editor" where
  "handleSave s =
     (if trim (title (rendered s)) = []
      then record_effect Manual (Alert ''Please enter a title for the recap'') s
      else (record_effect Manual (OnSave (editorState (rendered s)) (title (rendered s)))
              (setState (\<lambda>v. v\<lparr>isSaving := True\<rparr>) s))\<lparr>inflight := inflight s @ [Manual]\<rparr>)"

definition settled :: "origin \<Rightarrow> bool \<Rightarrow> Editor \<Rightarrow> Editor" where
  "settled who saved s =
     setState (\<lambda>v. v\<lparr>isSaving := False\<rparr>)
       (if saved then setState (\<lambda>v. v\<lparr>hasUnsavedChanges := False\<rparr>) s
        else (case who of
                Auto \<Rightarrow> record_effect Auto (ConsoleError ''Auto-save failed:'') s
              | Manual \<Rightarrow> record_effect Manual (Alert ''Failed to save recap. Please try again.'')
                            (record_effect Manual (ConsoleError ''Save failed:'') s)))"

definition handleTitleChange :: "string \<Rightarrow> Editor \<Rightarrow> Editor" where
  "handleTitleChange v s =
     setState (\<lambda>v. v\<lparr>hasUnsavedChanges := True\<rparr>) (setState (\<lambda>st. st\<lparr>title := v\<rparr>) s)"

text \<open>The update listener registered with the editor: \<open>textContent\<close> is the text of the document.\<close>

definition updateListener :: "string \<Rightarrow> Editor \<Rightarrow> Editor" where
  "updateListener textContent s =
     setState (\<lambda>v. v\<lparr>hasUnsavedChanges := True\<rparr>)
       (setState (\<lambda>v. v\<lparr>editorState := textContent\<rparr>) s)"

text \<open>
  The Save button is rendered with
  \<open>disabled={isLoading || isSaving || !title.trim() || !editorState.trim()}\<close> and
  \<open>onClick={handleSave}\<close>; a click on a disabled button calls no handler.
\<close>

definition save_disabled :: "bool \<Rightarrow> RecapEditor \<Rightarrow> bool" where
  "save_disabled isLoading r =
     (isLoading \<or> isSaving r \<or> trim (title r) = [] \<or> trim (editorState r) = [])"

definition clickSave :: "bool \<Rightarrow> Editor \<Rightarrow> Editor" where
  "clickSave isLoading s = (if save_disabled isLoading (rendered s) then s else handleSave s)"

text \<open>
  The auto-save effect, with the dependencies \<open>[hasUnsavedChanges, handleAutoSave,
  autoSaveTimeout]\<close>. A run of it is preceded by the clean-up of the run before, which
  clears the timeout that was in \<open>autoSaveTimeout\<close> at that run's render.
\<close>

definition autoSaveEffect :: "Editor \<Rightarrow> Editor" where
  "autoSaveEffect s =
     (let r = rendered s;
          s1 = (case effectCleanup s of None \<Rightarrow> s | Some t \<Rightarrow> clear_timer t s);
          s2 = (case autoSaveTimeout r of None \<Rightarrow> s1 | Some t \<Rightarrow> clear_timer t s1);
          s3 = (if hasUnsavedChanges r
                then setState (\<lambda>v. v\<lparr>autoSaveTimeout := Some (nextTimer s2)\<rparr>)
                       (s2\<lparr>timers := timers s2 @ [(nextTimer s2, clock_ed s2 + 2000, r)],
                           nextTimer := nextTimer s2 + 1\<rparr>)
                else s2)
      in s3\<lparr>effectCleanup := autoSaveTimeout r, effectDeps := Some r\<rparr>)"

text \<open>
  The effect that initialises the editor with the content of an existing recap
  (\<open>recap?.content\<close>, the empty string when there is none), with the dependencies
  \<open>[recap, editorState]\<close>.
\<close>

definition initEffect :: "string \<Rightarrow> Editor \<Rightarrow> Editor" where
  "initEffect content s =
     (let s1 = (if content \<noteq> [] \<and> editorState (rendered s) = []
                then setState (\<lambda>v. v\<lparr>hasUnsavedChanges := False\<rparr>)
                       (setState (\<lambda>v. v\<lparr>editorState := content\<rparr>) s)
                else s)
      in s1\<lparr>initDeps := Some (editorState (rendered s))\<rparr>)"

text \<open>
  A render takes up every state update made so far, then runs the effects whose
  dependencies differ from those of their last run, in the order of the source.
  \<open>handleAutoSave\<close> is a \<open>useCallback\<close> over \<open>[hasUnsavedChanges, isSaving, title,
  editorState, onSave]\<close>, so the auto-save effect runs when one of the five state variables
  differs or when the parent has passed a new \<open>onSave\<close>.
\<close>

definition render :: "string \<Rightarrow> bool \<Rightarrow> Editor \<Rightarrow> Editor" where
  "render content onSaveChanged s =
     (let s1 = s\<lparr>rendered := current s, pendingSince := None\<rparr>;
          s2 = (if effectDeps s1 = Some (rendered s1) \<and> \<not> onSaveChanged then s1
                else autoSaveEffect s1)
      in if initDeps s2 = Some (editorState (rendered s2)) then s2 else initEffect content s2)"

text \<open>
  Time passes: the clock moves on by \<open>dt\<close> and every timeout that is due runs its callback,
  the \<open>handleAutoSave\<close> it was set with.
\<close>

definition elapse :: "nat \<Rightarrow> Editor \<Rightarrow> Editor" where
  "elapse dt s =
     (let now = clock_ed s + dt;
          due = filter (\<lambda>(i, t, c). t \<le> now) (timers s);
          s1 = s\<lparr>clock_ed := now, timers := filter (\<lambda>(i, t, c). \<not> t \<le> now) (timers s)\<rparr>
      in fold (\<lambda>(i, t, c). handleAutoSave c) due s1)"

text \<open>
  \<open>SaveSettled i saved\<close> settles the \<open>i\<close>-th call of \<open>onSave\<close> still in flight. The title
  input is rendered with \<open>disabled={isLoading}\<close>.
\<close>

datatype editor_event =
    TitleChange string | EditorUpdate string | ClickSave | SaveSettled nat bool
  | Render bool | Elapse nat

fun editor_step :: "bool \<Rightarrow> string \<Rightarrow> Editor \<Rightarrow> editor_event \<Rightarrow> Editor" where
  "editor_step isLoading content s (TitleChange v) =
     (if isLoading then s else handleTitleChange v s)"
| "editor_step isLoading content s (EditorUpdate textContent) = updateListener textContent s"
| "editor_step isLoading content s ClickSave = clickSave isLoading s"
| "editor_step isLoading content s (SaveSettled i saved) =
     (if i < length (inflight s)
      then settled (inflight s ! i) saved (s\<lparr>inflight := take i (inflight s) @ drop (Suc i) (inflight s)\<rparr>)
      else s)"
| "editor_step isLoading content s (Render onSaveChanged) = render content onSaveChanged s"
| "editor_step isLoading content s (Elapse dt) = elapse dt s"

definition editor_run :: "bool \<Rightarrow> string \<Rightarrow> editor_event list \<Rightarrow> Editor \<Rightarrow> Editor" where
  "editor_run isLoading content evs s = foldl (editor_step isLoading content) s evs"

text \<open>
  A state update is rendered before the 2000 ms of a timeout set at the same moment have
  passed: the render is queued ahead of the timeout's callback. A sequence of events is
  in time when the clock never moves to 2000 ms or more past an update that is still waiting
  for its render.
\<close>

fun in_time :: "Editor \<Rightarrow> editor_event \<Rightarrow> bool" where
  "in_time s (Elapse dt) =
     (case pendingSince s of None \<Rightarrow> True | Some t \<Rightarrow> clock_ed s + dt < t + 2000)"
| "in_time s e = True"

fun prompt :: "bool \<Rightarrow> string \<Rightarrow> Editor \<Rightarrow> editor_event list \<Rightarrow> bool" where
  "prompt isLoading content s [] = True"
| "prompt isLoading content s (e # es) =
     (in_time s e \<and> prompt isLoading content (editor_step isLoading content s e) es)"

fun is_edit :: "editor_event \<Rightarrow> bool" where
  "is_edit (TitleChange v) = True"
| "is_edit (EditorUpdate textContent) = True"
| "is_edit e = False"

text \<open>The calls of \<open>onSave\<close> made by \<open>handleAutoSave\<close>, and everything done to the outside.\<close>

definition auto_saves :: "Editor \<Rightarrow> (nat \<times> origin \<times> effect) list" where
  "auto_saves s =
     filter (\<lambda>(t, who, e). who = Auto \<and> (case e of OnSave c ttl \<Rightarrow> True | _ \<Rightarrow> False)) (trace s)"

definition effects :: "Editor \<Rightarrow> effect list" where
  "effects s = map (\<lambda>(t, who, e). e) (trace s)"

text \<open>
  The invariant of the runs that are in time: timeout identifiers are fresh, at most one
  timeout is pending, and a pending timeout is the one in \<open>autoSaveTimeout\<close>, set at the
  moment of an update that still waits for its render and unknown to the last run of the
  effect. No timeout has run \<open>onSave\<close>.
\<close>

definition armed_ok :: "Editor \<Rightarrow> bool" where
  "armed_ok s =
     ((\<forall>t. autoSaveTimeout (current s) = Some t \<longrightarrow> t < nextTimer s)
      \<and> (timers s = []
          \<or> (\<exists>i t0 c. timers s = [(i, t0 + 2000, c)] \<and> autoSaveTimeout (current s) = Some i
                \<and> pendingSince s = Some t0
                \<and> (\<forall>d. effectDeps s = Some d \<longrightarrow> autoSaveTimeout d \<noteq> Some i)))
      \<and> auto_saves s = [])"

text \<open>
  A step that leaves the timeouts alone: it sets none, clears none and runs none, it does not
  write \<open>autoSaveTimeout\<close>, and an update that waits for its render keeps waiting.
\<close>

definition quiet :: "Editor \<Rightarrow> Editor \<Rightarrow> bool" where
  "quiet s s' =
     (timers s' = timers s \<and> nextTimer s' = nextTimer s \<and> effectDeps s' = effectDeps s
      \<and> clock_ed s' = clock_ed s
      \<and> autoSaveTimeout (current s') = autoSaveTimeout (current s)
      \<and> (\<forall>t. pendingSince s = Some t \<longrightarrow> pendingSince s' = Some t)
      \<and> auto_saves s' = auto_saves s)"

section \<open>The data hooks\<close>

text \<open>
  JavaScript values as far as the hooks look at them. Numbers are integers here (no NaN, no
  fractions). \<open>truthy\<close> is the test of \<open>v ? a : b\<close>.
\<close>

datatype jsval =
    JUndefined | JNull | JBool bool | JNum int | JStr string
  | JArr "jsval list" | JObj "(string \<times> jsval) list"

fun truthy :: "jsval \<Rightarrow> bool" where
  "truthy JUndefined = False"
| "truthy JNull = False"
| "truthy (JBool b) = b"
| "truthy (JNum n) = (n \<noteq> 0)"
| "truthy (JStr s) = (s \<noteq> [])"
| "truthy (JArr vs) = True"
| "truthy (JObj kvs) = True"

text \<open>What a \<open>catch\<close> receives: an \<open>Error\<close> with its message, or any other value.\<close>

datatype thrown = Error string | Thrown jsval

definition error_message :: "thrown \<Rightarrow> string" where
  "error_message err =
     (case err of Error m \<Rightarrow> m | Thrown v \<Rightarrow> ''An unexpected error occurred'')"

fun digit_char :: "nat \<Rightarrow> char" where
  "digit_char n = char_of (48 + n)"

fun show_nat :: "nat \<Rightarrow> string" where
  "show_nat n = (if n < 10 then [digit_char n] else show_nat (n div 10) @ [digit_char (n mod 10)])"

record Session =
  access_token :: string

text \<open>
  A response of \<open>fetch\<close>: its status, its status text, and what \<open>response.json()\<close> gives,
  the parsed body or the exception of the parser. \<open>response.ok\<close> is the status range 200 to
  299. \<open>fetch\<close> itself either rejects or resolves to a response.
\<close>

record Response =
  status :: nat
  statusText :: string
  json :: "thrown + jsval"

definition ok :: "Response \<Rightarrow> bool" where
  "ok r = (200 \<le> status r \<and> status r \<le> 299)"

datatype fetch_result = Rejected thrown | Resolved Response

text \<open>
  A request as handed to \<open>fetch\<close>. The body is either absent (\<open>undefined\<close>) or
  \<open>JSON.stringify\<close> of a value; the serialiser is the platform's and is kept symbolic.
\<close>

datatype http_method = GET | POST | PUT | DELETE

datatype req_body = JSON_stringify jsval

record Request =
  url :: string
  req_method :: http_method
  headers :: "(string \<times> string) list"
  body :: "req_body option"

definition auth_headers :: "Session option \<Rightarrow> (string \<times> string) list" where
  "auth_headers session =
     [(''Content-Type'', ''application/json'')] @
     (case session of
        None \<Rightarrow> []
      | Some s \<Rightarrow> if access_token s \<noteq> [] then [(''Authorization'', ''Bearer '' @ access_token s)]
                  else [])"

definition http_error :: "Response \<Rightarrow> thrown" where
  "http_error r = Error (''HTTP '' @ show_nat (status r) @ '': '' @ statusText r)"

subsection \<open>useApi\<close>

record ApiState =
  data :: jsval
  loading :: bool
  error :: "string option"

definition failed :: "thrown \<Rightarrow> ApiState" where
  "failed err = \<lparr>data = JNull, loading = False, error = Some (error_message err)\<rparr>"

text \<open>
  \<open>fetchData\<close>, run to its end: \<open>getSession\<close> gives the session (or throws), \<open>fetch\<close>
  gives \<open>outcome\<close>. The result is the hook's state after the last \<open>setState\<close> and the
  requests issued.
\<close>

definition fetchData ::
  "string \<Rightarrow> string \<Rightarrow> thrown + Session option \<Rightarrow> fetch_result \<Rightarrow> ApiState
     \<Rightarrow> ApiState \<times> Request list" where
  "fetchData API_BASE_URL endpoint getSession outcome st =
     (case getSession of
        Inl err \<Rightarrow> (failed err, [])
      | Inr session \<Rightarrow>
          let req = \<lparr>url = API_BASE_URL @ endpoint, req_method = GET,
                     headers = auth_headers session, body = None\<rparr>
          in (case outcome of
                Rejected err \<Rightarrow> (failed err, [req])
              | Resolved response \<Rightarrow>
                  if \<not> ok response then (failed (http_error response), [req])
                  else (case json response of
                          Inl err \<Rightarrow> (failed err, [req])
                        | Inr result \<Rightarrow>
                            (\<lparr>data = result, loading = False, error = None\<rparr>, [req]))))"

text \<open>
  The hook over its life. An effect run is a render whose dependency list
  \<open>[fetchData, immediate, ...deps]\<close> changed (the first render included); it carries the
  \<open>endpoint\<close> and \<open>immediate\<close> of that render. \<open>Refetch\<close> is a call of the returned
  \<open>refetch\<close>. Each carries what the session provider and the network answer.
\<close>

datatype hook_event =
    EffectRun string bool "thrown + Session option" fetch_result
  | Refetch string "thrown + Session option" fetch_result

record Hook =
  apiState :: ApiState
  requests :: "Request list"

definition useApi_init :: "bool \<Rightarrow> Hook" where
  "useApi_init immediate =
     \<lparr>apiState = \<lparr>data = JNull, loading = immediate, error = None\<rparr>, requests = []\<rparr>"

definition do_fetch ::
  "string \<Rightarrow> string \<Rightarrow> thrown + Session option \<Rightarrow> fetch_result \<Rightarrow> Hook \<Rightarrow> Hook" where
  "do_fetch API_BASE_URL endpoint getSession outcome h =
     (case fetchData API_BASE_URL endpoint getSession outcome (apiState h) of
        (st, reqs) \<Rightarrow> \<lparr>apiState = st, requests = requests h @ reqs\<rparr>)"

fun useApi_step :: "string \<Rightarrow> Hook \<Rightarrow> hook_event \<Rightarrow> Hook" where
  "useApi_step API_BASE_URL h (EffectRun endpoint immediate getSession outcome) =
     (if immediate then do_fetch API_BASE_URL endpoint getSession outcome h else h)"
| "useApi_step API_BASE_URL h (Refetch endpoint getSession outcome) =
     do_fetch API_BASE_URL endpoint getSession outcome h"

definition useApi_run :: "string \<Rightarrow> hook_event list \<Rightarrow> Hook \<Rightarrow> Hook" where
  "useApi_run API_BASE_URL evs h = foldl (useApi_step API_BASE_URL) h evs"

fun not_immediate :: "hook_event \<Rightarrow> bool" where
  "not_immediate (EffectRun endpoint immediate getSession outcome) = (\<not> immediate)"
| "not_immediate (Refetch endpoint getSession outcome) = False"

subsection \<open>useApiMutation\<close>

text \<open>
  The hook's two state variables \<open>loading\<close> and \<open>error\<close>, and \<open>mutate\<close> run to its end: the
  value it returns (\<open>JNull\<close> for \<open>null\<close>), the state after it, the requests issued.
\<close>

record Mutation =
  loading_mut :: bool
  error_mut :: "string option"

definition mutate_body :: "jsval \<Rightarrow> req_body option" where
  "mutate_body d = (if truthy d then Some (JSON_stringify d) else None)"

definition mutate ::
  "string \<Rightarrow> string \<Rightarrow> jsval \<Rightarrow> http_method \<Rightarrow> thrown + Session option \<Rightarrow> fetch_result
     \<Rightarrow> Mutation \<Rightarrow> jsval \<times> Mutation \<times> Request list" where
  "mutate API_BASE_URL endpoint d m getSession outcome st =
     (case getSession of
        Inl err \<Rightarrow> (JNull, \<lparr>loading_mut = False, error_mut = Some (error_message err)\<rparr>, [])
      | Inr session \<Rightarrow>
          let req = \<lparr>url = API_BASE_URL @ endpoint, req_method = m,
                     headers = auth_headers session, body = mutate_body d\<rparr>;
              fail = (\<lambda>err. (JNull,
                        \<lparr>loading_mut = False, error_mut = Some (error_message err)\<rparr>, [req]))
          in (case outcome of
                Rejected err \<Rightarrow> fail err
              | Resolved response \<Rightarrow>
                  if \<not> ok response then fail (http_error response)
                  else (case json response of
                          Inl err \<Rightarrow> fail err
                        | Inr result \<Rightarrow>
                            (result, \<lparr>loading_mut = False, error_mut = None\<rparr>, [req]))))"

section \<open>The recap list: pagination\<close>

record 'a PaginatedResponse =
  success :: bool
  data :: "'a list"
  count :: int
  has_more :: "bool option"
  total :: "int option"

text \<open>
  Modelled from the spec: the list endpoints of the HTTP API, which build the pages, are
  not among the sources. "For all paginated list responses, \<open>data.length <= page_size\<close> and
  \<open>has_more\<close> is true iff \<open>page * page_size < count\<close>."
\<close>

definition paginated :: "int \<Rightarrow> int \<Rightarrow> 'a PaginatedResponse \<Rightarrow> bool" where
  "paginated page page_size r =
     (int (length (data r)) \<le> page_size
      \<and> (has_more r = Some True \<longleftrightarrow> page * page_size < count r))"

text \<open>
  \<open>RecapsOverview\<close> asks for the page \<open>currentPage\<close> with \<open>page_size: pageSize\<close> and works
  out the total and its own has-more flag from the response, if there is one.
\<close>

definition pageSize :: int where
  "pageSize = 6"

definition recaps :: "'a PaginatedResponse option \<Rightarrow> 'a list" where
  "recaps recapsResponse = (case recapsResponse of None \<Rightarrow> [] | Some r \<Rightarrow> data r)"

definition totalRecaps :: "'a PaginatedResponse option \<Rightarrow> int" where
  "totalRecaps recapsResponse = (case recapsResponse of None \<Rightarrow> 0 | Some r \<Rightarrow> count r)"

definition hasMore :: "int \<Rightarrow> 'a PaginatedResponse option \<Rightarrow> bool" where
  "hasMore currentPage recapsResponse = (currentPage * pageSize < totalRecaps recapsResponse)"

text \<open>
  The cards shown. The component returns a skeleton while the first page is loading and an
  alert when the hook reports an error (\<open>if (recapsError)\<close>: a non-empty string); otherwise
  the grid is rendered when the total is positive, one card per entry of \<open>recaps\<close>.
\<close>

definition displayed ::
  "bool \<Rightarrow> string option \<Rightarrow> int \<Rightarrow> 'a PaginatedResponse option \<Rightarrow> 'a list" where
  "displayed recapsLoading recapsError currentPage recapsResponse =
     (if recapsLoading \<and> currentPage = 1 then []
      else if recapsError \<noteq> None \<and> recapsError \<noteq> Some [] then []
      else if 0 < totalRecaps recapsResponse then recaps recapsResponse
      else [])"

section \<open>The realtime channel: reconnection\<close>

text \<open>
  \<open>useWebSocket\<close>. The state holds the hook's state variables, its three refs, and the
  environment the handlers act on: the pending timeouts (identifier and due time), a clock in
  milliseconds, and the state of the socket that \<open>wsRef\<close> points to. Two fields are not in
  the source, so that statements can speak about what the hook has done: \<open>scheduled\<close> counts
  the reconnection timeouts set so far, and \<open>closes\<close> lists the calls of \<open>close(code,
  reason)\<close> made on a socket.
\<close>

datatype readyState = CONNECTING | OPEN | CLOSING | CLOSED

record UseWebSocketOptions =
  enabled :: bool
  reconnectAttempts :: nat
  reconnectInterval :: nat

record WebSocketHook =
  isConnected :: bool
  lastMessage :: "jsval option"
  error_ws :: "string option"
  wsRef :: "readyState option"
  reconnectCountRef :: nat
  reconnectTimeoutRef :: "nat option"
  timeouts :: "(nat \<times> nat) list"
  clock :: nat
  nextTimeout :: nat
  scheduled :: nat
  closes :: "(nat \<times> string) list"

definition ws_init :: WebSocketHook where
  "ws_init = \<lparr>isConnected = False, lastMessage = None, error_ws = None, wsRef = None,
              reconnectCountRef = 0, reconnectTimeoutRef = None, timeouts = [], clock = 0,
              nextTimeout = 1, scheduled = 0, closes = []\<rparr>"

text \<open>
  \<open>user\<close> says whether a user is signed in. \<open>new WebSocket(url)\<close> yields a connecting
  socket, or throws for a URL the platform rejects: \<open>ctor_error\<close> is then the text of the
  exception, and \<open>None\<close> for a good URL.
\<close>

definition connect ::
  "UseWebSocketOptions \<Rightarrow> bool \<Rightarrow> string option \<Rightarrow> WebSocketHook \<Rightarrow> WebSocketHook" where
  "connect options user ctor_error s =
     (if \<not> enabled options \<or> \<not> user \<or> wsRef s = Some OPEN then s
      else (case ctor_error of
              None \<Rightarrow> s\<lparr>wsRef := Some CONNECTING\<rparr>
            | Some err \<Rightarrow> s\<lparr>error_ws := Some (''Failed to create WebSocket connection: '' @ err)\<rparr>))"

definition onopen :: "WebSocketHook \<Rightarrow> WebSocketHook" where
  "onopen s = s\<lparr>isConnected := True, error_ws := None, reconnectCountRef := 0,
               wsRef := map_option (\<lambda>r. OPEN) (wsRef s)\<rparr>"

definition onclose :: "UseWebSocketOptions \<Rightarrow> nat \<Rightarrow> WebSocketHook \<Rightarrow> WebSocketHook" where
  "onclose options code s =
     (let s1 = s\<lparr>isConnected := False, wsRef := map_option (\<lambda>r. CLOSED) (wsRef s)\<rparr>
      in if code \<noteq> 1000 \<and> reconnectCountRef s1 < reconnectAttempts options
         then s1\<lparr>reconnectCountRef := reconnectCountRef s1 + 1,
                 reconnectTimeoutRef := Some (nextTimeout s1),
                 timeouts := timeouts s1 @ [(nextTimeout s1, clock s1 + reconnectInterval options)],
                 nextTimeout := nextTimeout s1 + 1,
                 scheduled := scheduled s1 + 1\<rparr>
         else s1)"

definition onerror :: "WebSocketHook \<Rightarrow> WebSocketHook" where
  "onerror s = s\<lparr>error_ws := Some ''WebSocket connection error''\<rparr>"

text \<open>\<open>parsed\<close> is the result of \<open>JSON.parse(event.data)\<close>, \<open>None\<close> when it throws.\<close>

definition onmessage :: "jsval option \<Rightarrow> WebSocketHook \<Rightarrow> WebSocketHook" where
  "onmessage parsed s = (case parsed of None \<Rightarrow> s | Some m \<Rightarrow> s\<lparr>lastMessage := Some m\<rparr>)"

definition clearTimeout :: "nat \<Rightarrow> WebSocketHook \<Rightarrow> WebSocketHook" where
  "clearTimeout t s = s\<lparr>timeouts := filter (\<lambda>(i, due). i \<noteq> t) (timeouts s)\<rparr>"

definition disconnect :: "WebSocketHook \<Rightarrow> WebSocketHook" where
  "disconnect s =
     (let s1 = (case reconnectTimeoutRef s of
                  None \<Rightarrow> s
                | Some t \<Rightarrow> (clearTimeout t s)\<lparr>reconnectTimeoutRef := None\<rparr>);
          s2 = (case wsRef s1 of
                  None \<Rightarrow> s1
                | Some r \<Rightarrow> s1\<lparr>closes := closes s1 @ [(1000, ''User initiated disconnect'')],
                                 wsRef := None\<rparr>)
      in s2\<lparr>isConnected := False, lastMessage := None, error_ws := None,
             reconnectCountRef := 0\<rparr>)"

text \<open>
  Time passes: the clock moves on by \<open>dt\<close> and every timeout that is due runs its callback,
  which is \<open>connect()\<close>.
\<close>

definition tick ::
  "UseWebSocketOptions \<Rightarrow> bool \<Rightarrow> string option \<Rightarrow> nat \<Rightarrow> WebSocketHook \<Rightarrow> WebSocketHook" where
  "tick options user ctor_error dt s =
     (let now = clock s + dt;
          due = filter (\<lambda>(i, t). t \<le> now) (timeouts s);
          s1 = s\<lparr>clock := now, timeouts := filter (\<lambda>(i, t). \<not> t \<le> now) (timeouts s)\<rparr>
      in fold (\<lambda>d. connect options user ctor_error) due s1)"

datatype ws_event =
    Connect | Open | Close nat | SocketError | Message "jsval option" | Disconnect | Tick nat

fun ws_step ::
  "UseWebSocketOptions \<Rightarrow> bool \<Rightarrow> string option \<Rightarrow> WebSocketHook \<Rightarrow> ws_event
     \<Rightarrow> WebSocketHook" where
  "ws_step options user ctor_error s Connect = connect options user ctor_error s"
| "ws_step options user ctor_error s Open = onopen s"
| "ws_step options user ctor_error s (Close code) = onclose options code s"
| "ws_step options user ctor_error s SocketError = onerror s"
| "ws_step options user ctor_error s (Message parsed) = onmessage parsed s"
| "ws_step options user ctor_error s Disconnect = disconnect s"
| "ws_step options user ctor_error s (Tick dt) = tick options user ctor_error dt s"

definition ws_run ::
  "UseWebSocketOptions \<Rightarrow> bool \<Rightarrow> string option \<Rightarrow> ws_event list \<Rightarrow> WebSocketHook
     \<Rightarrow> WebSocketHook" where
  "ws_run options user ctor_error evs s = foldl (ws_step options user ctor_error) s evs"

text \<open>The events that reset the reconnection counter.\<close>

fun resets :: "ws_event \<Rightarrow> bool" where
  "resets Open = True"
| "resets Disconnect = True"
| "resets e = False"

section \<open>The league connection: processed authorization codes\<close>

text \<open>
  \<open>YahooLeagueConnection\<close>. The state holds the component's state variables that
  \<open>handleYahooCallback\<close> writes, the pending expiry timeouts (due time and code), a clock in
  milliseconds, and the bodies posted to the token-exchange endpoint
  \<open>/api/v1/fantasy/yahoo/callback\<close>, in order.
\<close>

record CallbackReply =
  reply_ok :: bool
  reply_success :: bool
  detail :: string
  message :: string

datatype callback_result = Failed | Reply CallbackReply

record YahooLeagueConnection =
  processedCodes :: "string set"
  loading_y :: bool
  error_y :: "string option"
  connectingYahoo :: bool
  expiries :: "(nat \<times> string) list"
  clock_y :: nat
  posted :: "(string \<times> string option) list"

definition yahoo_init :: YahooLeagueConnection where
  "yahoo_init = \<lparr>processedCodes = {}, loading_y = False, error_y = None,
                 connectingYahoo = False, expiries = [], clock_y = 0, posted = []\<rparr>"

fun starts_with :: "string \<Rightarrow> string \<Rightarrow> bool" where
  "starts_with s [] = True"
| "starts_with [] (p # ps) = False"
| "starts_with (x # xs) (p # ps) = (x = p \<and> starts_with xs ps)"

fun js_includes :: "string \<Rightarrow> string \<Rightarrow> bool" where
  "js_includes [] p = (p = [])"
| "js_includes (x # xs) p = (starts_with (x # xs) p \<or> js_includes xs p)"

text \<open>\<open>result.detail || result.message || 'Yahoo authentication failed'\<close>; an absent field is the empty string.\<close>

definition errorMessage :: "CallbackReply \<Rightarrow> string" where
  "errorMessage result =
     (if detail result \<noteq> [] then detail result
      else if message result \<noteq> [] then message result
      else ''Yahoo authentication failed'')"

text \<open>
  \<open>handleYahooCallback\<close>, run to its end. \<open>reply\<close> is what the token-exchange request gives
  (\<open>Failed\<close>: the request or the parsing of its answer throws); \<open>imported\<close> is the error
  message that \<open>importYahooLeagues\<close> leaves behind, \<open>None\<close> when the import succeeds. A call
  reads the set of processed codes as of the last completed update.
\<close>

definition handleYahooCallback ::
  "string \<Rightarrow> string option \<Rightarrow> callback_result \<Rightarrow> string option
     \<Rightarrow> YahooLeagueConnection \<Rightarrow> YahooLeagueConnection" where
  "handleYahooCallback code state reply imported s =
     (if code \<in> processedCodes s then s
      else
        let s1 = s\<lparr>loading_y := True, error_y := None,
                   processedCodes := insert code (processedCodes s),
                   expiries := expiries s @ [(clock_y s + 300000, code)],
                   posted := posted s @ [(code, state)]\<rparr>;
            s2 = (case reply of
                    Failed \<Rightarrow> s1\<lparr>error_y := Some ''Failed to process Yahoo authentication''\<rparr>
                  | Reply result \<Rightarrow>
                      if reply_ok result \<and> reply_success result
                      then s1\<lparr>error_y := imported\<rparr>
                      else if js_includes (errorMessage result) ''Authorization code expired''
                              \<or> js_includes (errorMessage result) ''invalid_grant''
                      then s1\<lparr>error_y := Some
  ''Authorization code expired. Please try connecting to Yahoo again - codes expire quickly!''\<rparr>
                      else s1\<lparr>error_y := Some (errorMessage result)\<rparr>)
        in s2\<lparr>loading_y := False, connectingYahoo := False\<rparr>)"

text \<open>
  Time passes: the clock moves on by \<open>dt\<close> and every expiry timeout that is due deletes its
  code from the set.
\<close>

definition advance :: "nat \<Rightarrow> YahooLeagueConnection \<Rightarrow> YahooLeagueConnection" where
  "advance dt s =
     (let now = clock_y s + dt
      in s\<lparr>clock_y := now,
            processedCodes := processedCodes s - snd ` set (filter (\<lambda>(t, c). t \<le> now) (expiries s)),
            expiries := filter (\<lambda>(t, c). \<not> t \<le> now) (expiries s)\<rparr>)"

datatype yahoo_event =
    Callback string "string option" callback_result "string option"
  | Advance nat

fun yahoo_step :: "YahooLeagueConnection \<Rightarrow> yahoo_event \<Rightarrow> YahooLeagueConnection" where
  "yahoo_step s (Callback code state reply imported) = handleYahooCallback code state reply imported s"
| "yahoo_step s (Advance dt) = advance dt s"

definition yahoo_run :: "yahoo_event list \<Rightarrow> YahooLeagueConnection \<Rightarrow> YahooLeagueConnection" where
  "yahoo_run evs s = foldl yahoo_step s evs"

fun elapsed :: "yahoo_event list \<Rightarrow> nat" where
  "elapsed [] = 0"
| "elapsed (Advance dt # evs) = dt + elapsed evs"
| "elapsed (e # evs) = elapsed evs"

definition posted_for :: "string \<Rightarrow> YahooLeagueConnection \<Rightarrow> (string \<times> string option) list" where
  "posted_for code s = filter (\<lambda>(c, st). c = code) (posted s)"

text \<open>The invariant of the reachable states: every pending expiry is of a code in the set, one per code.\<close>

definition expiries_ok :: "YahooLeagueConnection \<Rightarrow> bool" where
  "expiries_ok s = (snd ` set (expiries s) \<subseteq> processedCodes s \<and> distinct (map snd (expiries s)))"

text \<open>
  A code is held until \<open>T\<close>: it is in the set and none of its expiries is due before \<open>T\<close>.
\<close>

definition held :: "string \<Rightarrow> nat \<Rightarrow> YahooLeagueConnection \<Rightarrow> bool" where
  "held code T s = (code \<in> processedCodes s \<and> (\<forall>t. (t, code) \<in> set (expiries s) \<longrightarrow> T \<le> t))"


section \<open>Properties of the string functions\<close>

lemma code_lt: "code_unit c < 256"
  by (simp add: code_unit_def)

lemma code_char_of: "n < 256 \<Longrightarrow> code_unit (char_of n) = n"
  by (simp add: code_unit_def)

lemma code_inj: "code_unit a = code_unit b \<longleftrightarrow> a = b"
  by (simp add: code_unit_def)

lemma is_lower_code: "is_lower c \<longleftrightarrow> 97 \<le> code_unit c \<and> code_unit c \<le> 122"
  by (simp add: is_lower_def between_def) (simp add: code_unit_def)

lemma is_upper_code: "is_upper c \<longleftrightarrow> 65 \<le> code_unit c \<and> code_unit c \<le> 90"
  by (simp add: is_upper_def between_def) (simp add: code_unit_def)

lemma is_digit_code: "is_digit c \<longleftrightarrow> 48 \<le> code_unit c \<and> code_unit c \<le> 57"
  by (simp add: is_digit_def between_def) (simp add: code_unit_def)

lemma canonicalize_False [simp]: "canonicalize False c = c"
  by (simp add: canonicalize_def)

lemma cls_not_alnum:
  "cls_match True (NotRanges [(CHR ''a'', CHR ''z''), (CHR ''0'', CHR ''9'')]) c = (\<not> is_alnum c)"
  by (auto simp add: in_ranges_def is_alnum_def canonicalize_def uncanonicalize_def
      is_lower_code is_upper_code is_digit_code code_char_of
      is_lower_def [symmetric] is_digit_def [symmetric])

declare match_pieces.simps [simp del]
declare replace_all.simps [simp del]
declare match_alts.simps [simp del]

lemma lead_Nil [simp]: "lead c [] = 0"
  by (simp add: lead_def)

lemma lead_Cons [simp]: "lead c (x # xs) = (if x = c then Suc (lead c xs) else 0)"
  by (simp add: lead_def)

lemma subst_Txt [simp]: "subst [Txt t] gs = t"
  by (simp add: subst_def)

lemma subst_Nil [simp]: "subst [] gs = []"
  by (simp add: subst_def)

lemma match_not_alnum:
  "match_alts True b re_not_alnum (x # xs) = (if is_alnum x then None else Some ([], xs))"
  by (simp add: re_not_alnum_def cls_not_alnum take_char_def groups_of_def match_pieces.simps
                match_alts.simps del: cls_match.simps)

lemma match_not_alnum_Nil:
  "match_alts True b re_not_alnum [] = None"
  by (simp add: re_not_alnum_def match_pieces.simps match_alts.simps)

lemma replace_not_alnum:
  "replace_all True re_not_alnum [Txt ''_''] b s = map (\<lambda>c. if is_alnum c then c else CHR ''_'') s"
proof (induction s arbitrary: b)
  case Nil
  show ?case by (simp add: match_not_alnum_Nil replace_all.simps)
next
  case (Cons x xs)
  show ?case
    by (subst replace_all.simps) (simp add: match_not_alnum Cons.IH)
qed

lemma match_rep:
  "match_pieces False b [Rep n (Chr c)] s =
     (if n \<le> lead c s then Some ([takeWhile (\<lambda>x. x = c) s], dropWhile (\<lambda>x. x = c) s) else None)"
proof (induction s arbitrary: n b)
  case Nil
  show ?case by (simp add: skip_piece_def match_pieces.simps)
next
  case (Cons x xs)
  show ?case
    by (subst match_pieces.simps, cases n; cases "x = c")
       (simp_all add: Cons.IH skip_piece_def push_char_def match_pieces.simps(1))
qed

lemma match_underscores:
  "match_alts False b [[(False, Rep n (Chr c))]] s =
     (if n \<le> lead c s then Some ([], dropWhile (\<lambda>x. x = c) s) else None)"
  by (simp add: match_rep groups_of_def match_alts.simps)

lemma squeeze_run:
  "lead c r = 0 \<Longrightarrow> squeeze m c (replicate k c @ r) = replicate (min k m) c @ squeeze m c r"
proof (induction k)
  case 0
  then show ?case by simp
next
  case (Suc k)
  have l: "lead c (replicate k c @ r) = k" using Suc.prems
    by (induction k) auto
  show ?case using Suc l by (auto simp add: min_def replicate_app_Cons_same)
qed

lemma run_split: "s = replicate (lead c s) c @ dropWhile (\<lambda>x. x = c) s"
  by (induction s) auto

lemma lead_dropWhile [simp]: "lead c (dropWhile (\<lambda>x. x = c) s) = 0"
  by (induction s) auto

lemma replace_runs:
  "replace_all False [[(False, Rep (Suc m) (Chr c))]] [Txt (replicate m c)] b s = squeeze m c s"
proof (induction s arbitrary: b rule: length_induct)
  case (1 s)
  show ?case
  proof (cases "Suc m \<le> lead c s")
    case True
    let ?r = "dropWhile (\<lambda>x. x = c) s"
    have len: "length ?r < length s" using True
      by (cases s) (auto simp add: less_Suc_eq_le length_dropWhile_le split: if_splits)
    have "squeeze m c s = squeeze m c (replicate (lead c s) c @ ?r)"
      using run_split [of s c] by simp
    also have "\<dots> = replicate m c @ squeeze m c ?r"
      using True by (simp add: squeeze_run min_def)
    finally have sq: "squeeze m c s = replicate m c @ squeeze m c ?r" .
    show ?thesis
      apply (subst replace_all.simps)
      using True len 1
      apply (simp add: match_underscores sq)
      done
  next
    case False
    show ?thesis
    proof (cases s)
      case Nil
      then show ?thesis by (simp add: match_underscores replace_all.simps)
    next
      case (Cons x xs)
      show ?thesis
        apply (subst replace_all.simps)
        using False 1 Cons
        apply (auto simp add: match_underscores)
        done
    qed
  qed
qed

lemma match_boundary_inner:
  "match_alts False False re_boundary s = (if s = ''_'' then Some ([], []) else None)"
  by (cases s) (auto simp add: re_boundary_def match_alts.simps match_pieces.simps take_char_def
        skip_piece_def groups_of_def)

lemma match_boundary_start:
  "match_alts False True re_boundary s =
     (case s of [] \<Rightarrow> None | x # xs \<Rightarrow> if x = CHR ''_'' then Some ([], xs) else None)"
  by (cases s) (auto simp add: re_boundary_def match_alts.simps match_pieces.simps take_char_def
        skip_piece_def groups_of_def)

lemma replace_boundary_inner:
  "replace_all False re_boundary [] False s = strip_last CHR ''_'' s"
proof (induction s)
  case Nil
  show ?case by (simp add: replace_all.simps match_boundary_inner strip_last_def)
next
  case (Cons x xs)
  show ?case
    by (subst replace_all.simps)
       (auto simp add: match_boundary_inner Cons.IH strip_last_def replace_all.simps [of _ _ _ _ "[]"])
qed

lemma replace_boundary:
  "replace_all False re_boundary [] True s = strip_last CHR ''_'' (strip_first CHR ''_'' s)"
  by (subst replace_all.simps)
     (auto simp add: match_boundary_start replace_boundary_inner strip_first_def strip_last_def
           split: list.splits)

lemma replace_underscores:
  "replace_all False re_underscores [Txt ''_''] b s = squeeze 1 CHR ''_'' s"
  using replace_runs [of 1 "CHR ''_''" b s] by (simp add: re_underscores_def numeral_2_eq_2)

lemma sanitize_refines: "sanitizeFilename ttl = spec_sanitize ttl"
  by (simp add: sanitizeFilename_def spec_sanitize_def replace_not_alnum replace_boundary
        replace_underscores)

lemma squeeze_set: "set (squeeze m c s) \<subseteq> set s"
  by (induction s) auto

lemma lead_squeeze: "lead c (squeeze m c s) = min m (lead c s)"
  by (induction s) auto

lemma no_pair_Cons: "no_pair c (x # s) = ((x = c \<longrightarrow> lead c s = 0) \<and> no_pair c s)"
  by (cases s) auto

lemma no_pair_squeeze: "no_pair c (squeeze 1 c s)"
  by (induction s) (auto simp add: no_pair_Cons lead_squeeze)

lemma lead_append_0: "lead c (u @ v) = 0 \<Longrightarrow> lead c u = 0"
  by (cases u) (simp_all split: if_splits)

lemma no_pair_append: "no_pair c (u @ v) \<Longrightarrow> no_pair c u \<and> no_pair c v"
proof (induction u)
  case Nil
  then show ?case by simp
next
  case (Cons x u)
  then show ?case
    by (auto simp add: no_pair_Cons dest: lead_append_0)
qed

lemma no_pair_no_run: "no_pair c s \<Longrightarrow> \<not> (\<exists>u v. s = u @ [c, c] @ v)"
proof
  assume n: "no_pair c s" and "\<exists>u v. s = u @ [c, c] @ v"
  then obtain u v where "s = u @ ([c, c] @ v)" by blast
  with n have "no_pair c ([c, c] @ v)" using no_pair_append by blast
  then show False by simp
qed

lemma toLowerCase_map: "toLowerCase s = map lower_char s"
  by (simp add: toLowerCase_def)

lemma code_underscore: "code_unit CHR ''_'' = 95"
  by (simp add: code_unit_def)

lemma code_lower_char:
  "code_unit (lower_char x) = (if (65 \<le> code_unit x \<and> code_unit x \<le> 90) \<or> (192 \<le> code_unit x \<and> code_unit x \<le> 222 \<and> code_unit x \<noteq> 215)
                  then code_unit x + 32 else code_unit x)"
  by (simp add: lower_char_def Let_def code_char_of)

lemma lower_char_underscore: "lower_char x = CHR ''_'' \<longleftrightarrow> x = CHR ''_''"
proof -
  have "code_unit (lower_char x) = 95 \<longleftrightarrow> code_unit x = 95"
    unfolding code_lower_char by (simp split: if_splits)
  then show ?thesis
    unfolding code_underscore [symmetric] code_inj .
qed

lemma lower_char_alnum: "is_alnum x \<Longrightarrow> is_lower (lower_char x) \<or> is_digit (lower_char x)"
  unfolding is_alnum_def is_lower_code is_upper_code is_digit_code code_lower_char
  by (simp split: if_splits) arith

lemma no_pair_map:
  "(\<And>x. f x = c \<longleftrightarrow> x = c) \<Longrightarrow> no_pair c (map f s) = no_pair c s"
  by (induction c s rule: no_pair.induct) simp_all

lemma strip_first_set: "set (strip_first c s) \<subseteq> set s"
  by (auto simp add: strip_first_def split: list.splits if_splits)

lemma strip_last_set: "set (strip_last c s) \<subseteq> set s"
  by (auto simp add: strip_last_def dest: in_set_butlastD)

lemma no_pair_strip_first: "no_pair c s \<Longrightarrow> no_pair c (strip_first c s)"
  by (cases s) (simp_all add: strip_first_def no_pair_Cons)

lemma no_pair_strip_last: "no_pair c s \<Longrightarrow> no_pair c (strip_last c s)"
proof (cases "s = []")
  case True
  then show ?thesis by (simp add: strip_last_def)
next
  case False
  assume n: "no_pair c s"
  from False have "s = butlast s @ [last s]" by simp
  with n have "no_pair c (butlast s @ [last s])" by simp
  then have "no_pair c (butlast s)" using no_pair_append by blast
  with n show ?thesis by (simp add: strip_last_def)
qed

lemma lead_strip_first: "no_pair c s \<Longrightarrow> lead c (strip_first c s) = 0"
  by (cases s) (simp_all add: strip_first_def no_pair_Cons)

lemma hd_strip_last:
  assumes "lead c a = 0" "strip_last c a \<noteq> []"
  shows "hd (strip_last c a) \<noteq> c"
proof -
  from assms(2) have ne: "a \<noteq> []" by (auto simp add: strip_last_def)
  then obtain x xs where a: "a = x # xs" by (cases a) auto
  with assms(1) have "x \<noteq> c" by (simp split: if_splits)
  moreover have "hd (strip_last c a) = x"
    using assms(2) a by (cases xs) (auto simp add: strip_last_def)
  ultimately show ?thesis by simp
qed

lemma last_strip_last:
  assumes "no_pair c a" "strip_last c a \<noteq> []"
  shows "last (strip_last c a) \<noteq> c"
proof (cases "a \<noteq> [] \<and> last a = c")
  case False
  then show ?thesis using assms(2) by (auto simp add: strip_last_def)
next
  case True
  then have s: "strip_last c a = butlast a" by (simp add: strip_last_def)
  show ?thesis
  proof
    assume l: "last (strip_last c a) = c"
    obtain b where b: "a = b @ [c]" using True by (metis append_butlast_last_id)
    then have "b \<noteq> []" "last b = c" using l s assms(2) by simp_all
    then obtain d where "b = d @ [c]" by (metis append_butlast_last_id)
    with b have "a = d @ [c, c] @ []" by simp
    then show False using assms(1) no_pair_no_run by blast
  qed
qed

lemma sanitize_props:
  "(\<forall>c \<in> set (spec_sanitize ttl). is_lower c \<or> is_digit c \<or> c = CHR ''_'')
   \<and> \<not> (\<exists>u v. spec_sanitize ttl = u @ ''__'' @ v)
   \<and> (spec_sanitize ttl \<noteq> [] \<longrightarrow>
        hd (spec_sanitize ttl) \<noteq> CHR ''_'' \<and> last (spec_sanitize ttl) \<noteq> CHR ''_'')"
proof -
  let ?s1 = "map (\<lambda>c. if is_alnum c then c else CHR ''_'') ttl"
  let ?s2 = "squeeze 1 CHR ''_'' ?s1"
  let ?a = "strip_first CHR ''_'' ?s2"
  let ?s3 = "strip_last CHR ''_'' ?a"
  have r: "spec_sanitize ttl = map lower_char ?s3"
    by (simp add: spec_sanitize_def toLowerCase_map)
  have sub: "set ?s3 \<subseteq> set ?s1"
    using strip_last_set [of "CHR ''_''" ?a] strip_first_set [of "CHR ''_''" ?s2]
      squeeze_set [of 1 "CHR ''_''" ?s1] by blast
  have chars: "\<forall>c \<in> set (map lower_char ?s3). is_lower c \<or> is_digit c \<or> c = CHR ''_''"
  proof
    fix c assume "c \<in> set (map lower_char ?s3)"
    then obtain x where x: "x \<in> set ?s3" "c = lower_char x" by auto
    with sub have "x \<in> set ?s1" by blast
    then have "is_alnum x \<or> x = CHR ''_''" by auto
    then show "is_lower c \<or> is_digit c \<or> c = CHR ''_''"
      using x(2) lower_char_alnum [of x] lower_char_underscore [of x] by blast
  qed
  have np2: "no_pair CHR ''_'' ?s2" by (rule no_pair_squeeze)
  then have npa: "no_pair CHR ''_'' ?a" by (rule no_pair_strip_first)
  then have np3: "no_pair CHR ''_'' ?s3" by (rule no_pair_strip_last)
  then have "no_pair CHR ''_'' (map lower_char ?s3)" by (simp add: no_pair_map lower_char_underscore)
  then have runs: "\<not> (\<exists>u v. map lower_char ?s3 = u @ ''__'' @ v)" by (rule no_pair_no_run)
  have la: "lead CHR ''_'' ?a = 0" using np2 by (rule lead_strip_first)
  have ends: "map lower_char ?s3 \<noteq> [] \<longrightarrow> hd (map lower_char ?s3) \<noteq> CHR ''_'' \<and> last (map lower_char ?s3) \<noteq> CHR ''_''"
  proof
    assume "map lower_char ?s3 \<noteq> []"
    then have ne: "?s3 \<noteq> []" by simp
    have "hd ?s3 \<noteq> CHR ''_''" using la ne by (rule hd_strip_last)
    moreover have "last ?s3 \<noteq> CHR ''_''" using npa ne by (rule last_strip_last)
    ultimately show "hd (map lower_char ?s3) \<noteq> CHR ''_'' \<and> last (map lower_char ?s3) \<noteq> CHR ''_''"
      using ne by (simp add: hd_map last_map lower_char_underscore)
  qed
  show ?thesis unfolding r using chars runs ends by blast
qed

lemma skip_piece_Some: "skip_piece r = Some (parts, rest) \<longleftrightarrow> (\<exists>ps. parts = [] # ps \<and> r = Some (ps, rest))"
  by (cases r) (auto simp add: skip_piece_def)

lemma take_char_Some: "take_char x r = Some (parts, rest) \<longleftrightarrow> (\<exists>ps. parts = [x] # ps \<and> r = Some (ps, rest))"
  by (cases r) (auto simp add: take_char_def)

lemma match_sound:
  "match_pieces i b ps s = Some (parts, rest) \<Longrightarrow>
     concat parts @ rest = s \<and> list_all2 (piece_ok i) ps parts"
proof (induction i b ps s arbitrary: parts rest rule: match_pieces.induct)
  case (1 i bol s)
  then show ?case by (simp add: match_pieces.simps(1))
next
  case (2 i bol c ps s)
  then show ?case
    by (cases s) (auto simp add: match_pieces.simps(2) take_char_Some split: if_splits)
next
  case (3 i bol k ps s)
  then show ?case
    by (cases s) (auto simp add: match_pieces.simps(3) take_char_Some split: if_splits)
next
  case (4 i bol ps s)
  from "4.prems" have bol: "bol" and sk: "skip_piece (match_pieces i bol ps s) = Some (parts, rest)"
    by (simp_all add: match_pieces.simps(4) split: if_splits)
  from sk obtain ps0 where p: "parts = [] # ps0" and m: "match_pieces i bol ps s = Some (ps0, rest)"
    unfolding skip_piece_Some by blast
  from "4.IH" [OF bol m] show ?case by (simp add: p)
next
  case (5 i bol ps s)
  from "5.prems" have e: "s = []" and sk: "skip_piece (match_pieces i bol ps s) = Some (parts, rest)"
    by (simp_all add: match_pieces.simps(5) split: if_splits)
  from sk obtain ps0 where p: "parts = [] # ps0" and m: "match_pieces i bol ps s = Some (ps0, rest)"
    unfolding skip_piece_Some by blast
  from "5.IH" [OF e m] show ?case by (simp add: p)
next
  case (6 i bol n k ps s)
  note eq = match_pieces.simps(6) [of i bol n k ps]
  show ?case
  proof (cases s)
    case Nil
    with 6 show ?thesis
      by (auto simp add: eq skip_piece_Some split: if_splits)
  next
    case (Cons x xs)
    have skip: "n = 0 \<Longrightarrow> skip_piece (match_pieces i bol ps s) = Some (parts, rest) \<Longrightarrow>
        (\<And>ps0. match_pieces i bol ps s = Some (ps0, rest) \<Longrightarrow>
           concat ps0 @ rest = s \<and> list_all2 (piece_ok i) ps ps0) \<Longrightarrow> ?thesis"
    proof -
      assume n0: "n = 0" and sk: "skip_piece (match_pieces i bol ps s) = Some (parts, rest)"
        and ih: "\<And>ps0. match_pieces i bol ps s = Some (ps0, rest) \<Longrightarrow>
           concat ps0 @ rest = s \<and> list_all2 (piece_ok i) ps ps0"
      from sk obtain ps0 where p: "parts = [] # ps0" and m: "match_pieces i bol ps s = Some (ps0, rest)"
        unfolding skip_piece_Some by blast
      from ih [OF m] show ?thesis by (simp add: p)
    qed
    show ?thesis
    proof (cases "cls_match i k x")
      case c: True
      show ?thesis
      proof (cases "match_pieces i False (Rep (n - 1) k # ps) xs")
        case (Some q)
        obtain qp qr where qq: "q = (qp, qr)" by (cases q)
        from "6.IH"(2) [OF Cons c Some [unfolded qq]]
        have ih: "concat qp @ qr = xs" "list_all2 (piece_ok i) (Rep (n - 1) k # ps) qp" by auto
        then obtain p0 ps0 where qp: "qp = p0 # ps0" by (cases qp) auto
        from "6.prems" Cons c Some qq qp
        have "parts = (x # p0) # ps0" "rest = qr"
          by (auto simp add: eq push_char_def)
        with ih qp Cons c show ?thesis by auto
      next
        case None
        with "6.prems" Cons c have n0: "n = 0"
          and sk: "skip_piece (match_pieces i bol ps s) = Some (parts, rest)"
          by (auto simp add: eq split: if_splits)
        show ?thesis
          using skip [OF n0 sk] "6.IH"(3) [OF Cons c None n0] by blast
      qed
    next
      case c: False
      with "6.prems" Cons have n0: "n = 0"
        and sk: "skip_piece (match_pieces i bol ps s) = Some (parts, rest)"
        by (auto simp add: eq split: if_splits)
      show ?thesis
        using skip [OF n0 sk] "6.IH"(4) [OF Cons c n0] by blast
    qed
  qed
next
  case (7 i bol k ps s)
  note eq = match_pieces.simps(7) [of i bol k ps]
  show ?case
  proof (cases "skip_piece (match_pieces i bol ps s)")
    case (Some r)
    with "7.prems" have sk: "skip_piece (match_pieces i bol ps s) = Some (parts, rest)"
      by (simp add: eq)
    then obtain ps0 where p: "parts = [] # ps0" "match_pieces i bol ps s = Some (ps0, rest)"
      by (auto simp add: skip_piece_Some)
    from "7.IH"(1) [OF p(2)] p show ?thesis by auto
  next
    case None
    with "7.prems" obtain x xs q where s: "s = x # xs" and c: "cls_match i k x"
      and q: "match_pieces i False (Lazy k # ps) xs = Some q" and r: "(parts, rest) = push_char x q"
      by (auto simp add: eq split: list.splits if_splits)
    obtain qp qr where qq: "q = (qp, qr)" by (cases q)
    from "7.IH"(2) [OF None s c q [unfolded qq]]
    have ih: "concat qp @ qr = xs" "list_all2 (piece_ok i) (Lazy k # ps) qp" by auto
    then obtain p0 ps0 where qp: "qp = p0 # ps0" by (cases qp) auto
    from r qq qp have "parts = (x # p0) # ps0" "rest = qr" by (auto simp add: push_char_def)
    with ih qp s c show ?thesis by auto
  qed
qed

lemma canon_nonletter:
  "\<not> is_upper d \<Longrightarrow> \<not> is_lower d \<Longrightarrow> canonicalize i d = canonicalize i x \<longleftrightarrow> x = d"
proof -
  assume u: "\<not> is_upper d" and l: "\<not> is_lower d"
  have a: "canonicalize i d = d" using l by (simp add: canonicalize_def)
  have "code_unit x - 32 < 256" using code_lt [of x] by simp
  then have "is_lower x \<Longrightarrow> is_upper (char_of (code_unit x - 32))"
    by (simp add: is_lower_code is_upper_code code_char_of) arith
  then have "is_lower x \<Longrightarrow> char_of (code_unit x - 32) \<noteq> d" using u by auto
  then show ?thesis using a l by (auto simp add: canonicalize_def)
qed

lemma canon_lt: "canonicalize i CHR ''<'' = canonicalize i x \<longleftrightarrow> x = CHR ''<''"
  by (rule canon_nonletter) (simp_all add: is_upper_code is_lower_code code_unit_def)

lemma canon_gt: "canonicalize i CHR ''>'' = canonicalize i x \<longleftrightarrow> x = CHR ''>''"
  by (rule canon_nonletter) (simp_all add: is_upper_code is_lower_code code_unit_def)

lemma lit_part:
  "list_all2 (piece_ok i) ps parts \<Longrightarrow> Lit c \<in> set ps \<Longrightarrow>
     \<exists>x. canonicalize i c = canonicalize i x \<and> x \<in> set (concat parts)"
proof (induction rule: list_all2_induct)
  case Nil
  then show ?case by simp
next
  case (Cons p ps t ts)
  show ?case
  proof (cases "Lit c = p")
    case True
    with Cons.hyps(1) obtain x where "t = [x]" "canonicalize i c = canonicalize i x" by auto
    then show ?thesis by auto
  next
    case False
    with Cons.prems have "Lit c \<in> set ps" by simp
    from Cons.IH [OF this] show ?thesis by auto
  qed
qed

lemma tagged_match:
  assumes "tagged a" "match_pieces i b (map snd a) s = Some (parts, rest)"
  shows "\<not> no_tag s"
proof -
  from assms(1) [unfolded tagged_def]
  obtain ps where a: "map snd a = Lit CHR ''<'' # ps" and g: "Lit CHR ''>'' \<in> set ps"
    by auto
  from match_sound [OF assms(2)] a
  have s: "concat parts @ rest = s" and l: "list_all2 (piece_ok i) (Lit CHR ''<'' # ps) parts"
    by simp_all
  from l obtain p0 ts where parts: "parts = p0 # ts" and p0: "piece_ok i (Lit CHR ''<'') p0"
    and ts: "list_all2 (piece_ok i) ps ts" by (cases parts) auto
  from p0 have p0': "p0 = ''<''" by (auto simp add: canon_lt)
  from lit_part [OF ts g] have "CHR ''>'' \<in> set (concat ts)" by (auto simp add: canon_gt)
  then have "CHR ''>'' \<in> set (concat ts @ rest)" by simp
  moreover have "s = CHR ''<'' # (concat ts @ rest)" using s parts p0' by simp
  ultimately show ?thesis by simp
qed

lemma tagged_alts_None:
  "\<forall>a \<in> set re. tagged a \<Longrightarrow> no_tag s \<Longrightarrow> match_alts i b re s = None"
proof (induction re)
  case Nil
  show ?case by (simp add: match_alts.simps)
next
  case (Cons a re)
  have "match_pieces i b (map snd a) s = None"
  proof (cases "match_pieces i b (map snd a) s")
    case None
    then show ?thesis .
  next
    case (Some q)
    obtain parts rest where "q = (parts, rest)" by (cases q)
    with Some Cons.prems tagged_match [of a i b s parts rest] show ?thesis by simp
  qed
  with Cons show ?case by (simp add: match_alts.simps)
qed

lemma replace_tagged_id:
  "\<forall>a \<in> set re. tagged a \<Longrightarrow> no_tag s \<Longrightarrow> replace_all i re tmpl b s = s"
proof (induction s arbitrary: b)
  case Nil
  then show ?case by (subst replace_all.simps) (simp add: tagged_alts_None)
next
  case (Cons x xs)
  from Cons.prems have "no_tag xs" by simp
  with Cons have "replace_all i re tmpl False xs = xs" by blast
  with Cons.prems show ?case by (subst replace_all.simps) (simp add: tagged_alts_None)
qed

lemma match_close_None:
  "match_pieces False b [Rep 0 (NotChr CHR ''>''), Lit CHR ''>''] s = None \<Longrightarrow> CHR ''>'' \<notin> set s"
proof (induction s arbitrary: b)
  case Nil
  then show ?case by simp
next
  case (Cons x xs)
  note eq = match_pieces.simps(6) [of False b 0 "NotChr CHR ''>''" "[Lit CHR ''>'']"]
  show ?case
  proof (cases "x = CHR ''>''")
    case True
    with Cons.prems show ?thesis
      by (simp add: eq match_pieces.simps(1,2) skip_piece_def take_char_def)
  next
    case False
    with Cons.prems have "match_pieces False False [Rep 0 (NotChr CHR ''>''), Lit CHR ''>''] xs = None"
      by (simp add: eq split: option.splits)
    from Cons.IH [OF this] False show ?thesis by simp
  qed
qed

lemma match_tag_None:
  "match_alts False b re_tag (CHR ''<'' # xs) = None \<Longrightarrow> CHR ''>'' \<notin> set xs"
proof -
  assume "match_alts False b re_tag (CHR ''<'' # xs) = None"
  then have "match_pieces False False [Rep 0 (NotChr CHR ''>''), Lit CHR ''>''] xs = None"
    by (simp add: re_tag_def match_alts.simps match_pieces.simps(2) take_char_def
          split: option.splits prod.splits)
  then show ?thesis by (rule match_close_None)
qed

lemma match_alts_sound:
  "match_alts i b re s = Some (gs, rest) \<Longrightarrow> \<exists>m. s = m @ rest"
proof (induction re)
  case Nil
  then show ?case by (simp add: match_alts.simps)
next
  case (Cons a re)
  show ?case
  proof (cases "match_pieces i b (map snd a) s")
    case None
    with Cons show ?thesis by (simp add: match_alts.simps)
  next
    case (Some q)
    obtain parts r where q: "q = (parts, r)" by (cases q)
    with Some Cons.prems have "r = rest" by (simp add: match_alts.simps)
    with match_sound [OF Some [unfolded q]] show ?thesis by auto
  qed
qed

lemma replace_delete_set:
  "set (replace_all i re [] b s) \<subseteq> set s"
proof (induction s arbitrary: b rule: length_induct)
  case (1 s)
  show ?case
  proof (cases "match_alts i b re s")
    case None
    show ?thesis
    proof (cases s)
      case Nil
      with None show ?thesis by (subst replace_all.simps) simp
    next
      case (Cons x xs)
      with 1 have "set (replace_all i re [] False xs) \<subseteq> set xs" by simp
      with None Cons show ?thesis by (subst replace_all.simps) auto
    qed
  next
    case (Some q)
    obtain gs rest where q: "q = (gs, rest)" by (cases q)
    from match_alts_sound [OF Some [unfolded q]] obtain m where m: "s = m @ rest" by blast
    show ?thesis
    proof (cases "length rest < length s")
      case True
      with 1 have "set (replace_all i re [] False rest) \<subseteq> set rest" by simp
      with True Some q m show ?thesis by (subst replace_all.simps) auto
    next
      case False
      show ?thesis
      proof (cases s)
        case Nil
        with Some q False show ?thesis by (subst replace_all.simps) simp
      next
        case (Cons x xs)
        with 1 have "set (replace_all i re [] False xs) \<subseteq> set xs" by simp
        with Some q False Cons show ?thesis by (subst replace_all.simps) auto
      qed
    qed
  qed
qed

lemma match_lit_shorter:
  assumes "match_pieces i b (Lit c # ps) s = Some (parts, rest)"
  shows "length rest < length s"
proof (cases s)
  case Nil
  with assms show ?thesis by (simp add: match_pieces.simps(2))
next
  case (Cons x xs)
  with assms obtain ps0 where "match_pieces i False ps xs = Some (ps0, rest)"
    by (auto simp add: match_pieces.simps(2) take_char_Some split: if_splits)
  from match_sound [OF this] have "concat ps0 @ rest = xs" by simp
  then have "length rest \<le> length xs" by (metis length_append le_add2)
  with Cons show ?thesis by simp
qed

lemma match_tag_shorter:
  assumes "match_alts False b re_tag s = Some (gs, rest)"
  shows "length rest < length s"
proof -
  from assms obtain parts where
    "match_pieces False b [Lit CHR ''<'', Rep 0 (NotChr CHR ''>''), Lit CHR ''>''] s = Some (parts, rest)"
    by (auto simp add: re_tag_def match_alts.simps split: option.splits)
  then show ?thesis by (rule match_lit_shorter)
qed

lemma strip_no_tag: "no_tag (replace_all False re_tag [] b s)"
proof (induction s arbitrary: b rule: length_induct)
  case (1 s)
  show ?case
  proof (cases "match_alts False b re_tag s")
    case None
    show ?thesis
    proof (cases s)
      case Nil
      with None show ?thesis by (subst replace_all.simps) simp
    next
      case (Cons x xs)
      with 1 have ih: "no_tag (replace_all False re_tag [] False xs)" by simp
      have "x = CHR ''<'' \<Longrightarrow> CHR ''>'' \<notin> set (replace_all False re_tag [] False xs)"
        using None Cons match_tag_None [of b xs] replace_delete_set [of False re_tag False xs]
        by auto
      with None Cons ih show ?thesis by (subst replace_all.simps) auto
    qed
  next
    case (Some q)
    obtain gs rest where q: "q = (gs, rest)" by (cases q)
    from match_tag_shorter [OF Some [unfolded q]] have len: "length rest < length s" .
    with 1 have "no_tag (replace_all False re_tag [] False rest)" by simp
    with len Some q show ?thesis by (subst replace_all.simps) simp
  qed
qed

lemma no_tag_append: "no_tag (u @ v) \<Longrightarrow> no_tag u \<and> no_tag v"
  by (induction u) auto

lemma no_tag_squeeze: "no_tag s \<Longrightarrow> no_tag (squeeze m c s)"
proof (induction s)
  case Nil
  then show ?case by simp
next
  case (Cons x xs)
  then show ?case using squeeze_set [of m c xs] by auto
qed

lemma trim_split: "\<exists>u v. s = u @ trim s @ v"
proof -
  let ?a = "dropWhile is_space s"
  have "s = takeWhile is_space s @ ?a" by simp
  moreover have "rev ?a = takeWhile is_space (rev ?a) @ dropWhile is_space (rev ?a)" by simp
  then have "?a = rev (dropWhile is_space (rev ?a)) @ rev (takeWhile is_space (rev ?a))"
    by (metis rev_append rev_rev_ident)
  ultimately have "s = takeWhile is_space s @ trim s @ rev (takeWhile is_space (rev ?a))"
    by (simp add: trim_def)
  then show ?thesis by blast
qed

lemma no_tag_trim: "no_tag s \<Longrightarrow> no_tag (trim s)"
  using trim_split [of s] no_tag_append by metis

lemma squeeze_fix: "runs_le m c s \<Longrightarrow> squeeze m c s = s"
  by (induction s) auto

lemma runs_le_squeeze: "runs_le m c (squeeze m c s)"
  by (induction s) (auto simp add: lead_squeeze)

lemma lead_append_le: "lead c u \<le> lead c (u @ v)"
  by (induction u) auto

lemma runs_le_append: "runs_le m c (u @ v) \<Longrightarrow> runs_le m c u \<and> runs_le m c v"
proof (induction u)
  case Nil
  then show ?case by simp
next
  case (Cons x u)
  then show ?case using lead_append_le [of c u v] by auto
qed

lemma runs_le_trim: "runs_le m c s \<Longrightarrow> runs_le m c (trim s)"
  using trim_split [of s] runs_le_append by metis

lemma dropWhile_id: "s = [] \<or> \<not> P (hd s) \<Longrightarrow> dropWhile P s = s"
  by (cases s) auto

lemma dropWhile_hd: "dropWhile P s = [] \<or> \<not> P (hd (dropWhile P s))"
  by (metis hd_dropWhile)

lemma trim_idem: "trim (trim s) = trim s"
proof -
  let ?a = "dropWhile is_space s"
  let ?b = "dropWhile is_space (rev ?a)"
  have t: "trim s = rev ?b" by (simp add: trim_def)
  have b: "?b = [] \<or> \<not> is_space (hd ?b)" by (rule dropWhile_hd)
  have "rev ?b = [] \<or> \<not> is_space (hd (rev ?b))"
  proof (cases "?b = []")
    case True
    then show ?thesis by simp
  next
    case False
    have "rev ?a = takeWhile is_space (rev ?a) @ ?b" by simp
    then have "last (rev ?a) = last ?b" using False by (metis last_append)
    moreover have "?a \<noteq> []"
    proof
      assume e: "?a = []"
      have "?b = []" unfolding e by simp
      with False show False by blast
    qed
    ultimately have "last ?b = hd ?a" by (simp add: last_rev)
    moreover have "\<not> is_space (hd ?a)" using \<open>?a \<noteq> []\<close> dropWhile_hd [of is_space s] by blast
    ultimately show ?thesis using False by (simp add: hd_rev)
  qed
  then have "dropWhile is_space (rev ?b) = rev ?b" by (rule dropWhile_id)
  moreover have "dropWhile is_space ?b = ?b" using b by (rule dropWhile_id)
  ultimately show ?thesis unfolding t by (simp add: trim_def)
qed

lemma replace_newlines:
  "replace_all False re_newlines [Txt [NL, NL]] b s = squeeze 2 NL s"
  using replace_runs [of 2 NL b s] by (simp add: re_newlines_def numeral_3_eq_3 numeral_2_eq_2)

lemma tagged_open: "tagged (open_tag name)"
  by (simp add: tagged_def open_tag_def lits_def)

lemma tagged_close: "tagged (close_tag name)"
  by (simp add: tagged_def close_tag_def lits_def)

lemma tagged_element: "\<forall>a \<in> set (element name). tagged a"
  by (simp add: tagged_def element_def open_tag_def close_tag_def lits_def)

lemma tagged_link: "\<forall>a \<in> set re_link. tagged a"
  by (simp add: tagged_def re_link_def close_tag_def lits_def)

lemma tagged_tag: "\<forall>a \<in> set re_tag. tagged a"
  by (simp add: tagged_def re_tag_def)

lemma cleanup_idem: "cleanup (cleanup s) = cleanup s"
proof -
  have "runs_le 2 NL (trim (squeeze 2 NL s))"
    using runs_le_squeeze runs_le_trim by blast
  then have "squeeze 2 NL (trim (squeeze 2 NL s)) = trim (squeeze 2 NL s)"
    by (rule squeeze_fix)
  then show ?thesis by (simp add: cleanup_def trim_idem)
qed

lemma html_to_markdown_no_tag: "no_tag (html_to_markdown h)"
  unfolding html_to_markdown_def replace_newlines
  by (intro no_tag_trim no_tag_squeeze strip_no_tag)

lemma html_to_markdown_tag_free: "no_tag s \<Longrightarrow> html_to_markdown s = cleanup s"
  unfolding html_to_markdown_def replace_newlines cleanup_def
  by (simp add: replace_tagged_id tagged_open tagged_close tagged_element tagged_link tagged_tag)

lemma html_to_markdown_cleanup: "\<exists>z. html_to_markdown h = cleanup z"
  unfolding html_to_markdown_def replace_newlines cleanup_def by blast

lemma html_to_markdown_idem: "html_to_markdown (html_to_markdown h) = html_to_markdown h"
proof -
  obtain z where z: "html_to_markdown h = cleanup z" using html_to_markdown_cleanup by blast
  have "html_to_markdown (html_to_markdown h) = cleanup (html_to_markdown h)"
    using html_to_markdown_no_tag by (rule html_to_markdown_tag_free)
  also have "\<dots> = html_to_markdown h" unfolding z by (rule cleanup_idem)
  finally show ?thesis .
qed

text \<open>
  C10. For every title, \<open>sanitizeFilename\<close> returns what the four steps say (every character
  outside a-z, A-Z, 0-9 replaced by an underscore, runs of underscores collapsed to one, an
  underscore at either end dropped, the result lowercased); the result holds only lowercase
  letters, digits and underscores, no two underscores in a row, and no underscore at its start
  or end.
\<close>

theorem sanitizeFilename_wellformed:
  "sanitizeFilename ttl = spec_sanitize ttl
   \<and> (\<forall>c \<in> set (sanitizeFilename ttl). is_lower c \<or> is_digit c \<or> c = CHR ''_'')
   \<and> \<not> (\<exists>u v. sanitizeFilename ttl = u @ ''__'' @ v)
   \<and> (sanitizeFilename ttl \<noteq> [] \<longrightarrow>
        hd (sanitizeFilename ttl) \<noteq> CHR ''_'' \<and> last (sanitizeFilename ttl) \<noteq> CHR ''_'')"
  using sanitize_props [of ttl] by (simp only: sanitize_refines) simp

theorem sanitizeFilename_wellformed_witness:
  "sanitizeFilename ''  My Recap: Week #1!!  '' = ''my_recap_week_1''
   \<and> list_all (\<lambda>c. is_lower c \<or> is_digit c \<or> c = CHR ''_'') ''my_recap_week_1''
   \<and> \<not> (\<exists>u v. ''my_recap_week_1'' = u @ ''__'' @ v)
   \<and> hd ''my_recap_week_1'' \<noteq> CHR ''_'' \<and> last ''my_recap_week_1'' \<noteq> CHR ''_''"
proof -
  have v: "sanitizeFilename ''  My Recap: Week #1!!  '' = ''my_recap_week_1''"
    by code_simp
  from sanitizeFilename_wellformed [of "''  My Recap: Week #1!!  ''", THEN conjunct2]
  have "(\<forall>c \<in> set ''my_recap_week_1''. is_lower c \<or> is_digit c \<or> c = CHR ''_'')
     \<and> \<not> (\<exists>u v. ''my_recap_week_1'' = u @ ''__'' @ v)
     \<and> (''my_recap_week_1'' \<noteq> [] \<longrightarrow>
          hd ''my_recap_week_1'' \<noteq> CHR ''_'' \<and> last ''my_recap_week_1'' \<noteq> CHR ''_'')"
    unfolding v .
  then show ?thesis using v by (simp add: list_all_iff)
qed

text \<open>
  C1. Markdown export is idempotent on plain paragraphs: for a document whose HTML is a
  sequence of \<open><p>t</p>\<close> with texts free of markup, running the substitution chain of
  \<open>exportAsMarkdown\<close> on the exported Markdown gives the exported Markdown back.
\<close>

theorem exportAsMarkdown_idempotent_plain:
  "\<forall>t \<in> set ts. plain_text t \<Longrightarrow>
     html_to_markdown (exportAsMarkdown options (paragraphs ts))
       = exportAsMarkdown options (paragraphs ts)"
  by (simp add: exportAsMarkdown_def html_to_markdown_idem)

theorem exportAsMarkdown_idempotent_plain_witness:
  "plain_text ''Hi'' \<and> plain_text ''you''
   \<and> exportAsMarkdown \<lparr>format = Markdown, title = None, includeTitle = None\<rparr>
        (paragraphs [''Hi'', ''you'']) = ''Hi'' @ [NL, NL] @ ''you''
   \<and> html_to_markdown (''Hi'' @ [NL, NL] @ ''you'') = ''Hi'' @ [NL, NL] @ ''you''"
proof -
  have p: "\<forall>t \<in> set [''Hi'', ''you'']. plain_text t"
    by (simp add: plain_text_def)
  have v: "exportAsMarkdown \<lparr>format = Markdown, title = None, includeTitle = None\<rparr>
        (paragraphs [''Hi'', ''you'']) = ''Hi'' @ [NL, NL] @ ''you''"
    by code_simp
  from exportAsMarkdown_idempotent_plain [OF p,
      of "\<lparr>format = Markdown, title = None, includeTitle = None\<rparr>"]
  show ?thesis unfolding v using p by simp
qed

section \<open>The hooks\<close>

declare show_nat.simps [simp del]

text \<open>
  C6. One run of \<open>fetchData\<close> with a session provider that answers issues one request, a
  GET to the base URL followed by the endpoint; when the session carries a (non-empty) access
  token the header \<open>Authorization: Bearer token\<close> is attached. On a status outside 200 to
  299 the hook's error is \<open>HTTP status: statusText\<close> and its data is null; on a status
  inside with a body that parses, the data is the parsed body and the error is null. (A
  request that is rejected and a body that does not parse end like any exception: the error
  is the exception's message and the data is null.)
\<close>

theorem useApi_fetchData:
  "snd (fetchData base endpoint (Inr session) outcome st)
     = [\<lparr>url = base @ endpoint, req_method = GET, headers = auth_headers session, body = None\<rparr>]
   \<and> (session = Some s \<and> access_token s \<noteq> [] \<longrightarrow>
        auth_headers session = [(''Content-Type'', ''application/json''),
                                (''Authorization'', ''Bearer '' @ access_token s)])
   \<and> (outcome = Resolved r \<and> \<not> ok r \<longrightarrow>
        fst (fetchData base endpoint (Inr session) outcome st)
          = \<lparr>ApiState.data = JNull, loading = False,
             error = Some (''HTTP '' @ show_nat (status r) @ '': '' @ statusText r)\<rparr>)
   \<and> (outcome = Resolved r \<and> ok r \<and> json r = Inr v \<longrightarrow>
        fst (fetchData base endpoint (Inr session) outcome st)
          = \<lparr>ApiState.data = v, loading = False, error = None\<rparr>)
   \<and> (outcome = Rejected err \<or> (outcome = Resolved r \<and> ok r \<and> json r = Inl err) \<longrightarrow>
        fst (fetchData base endpoint (Inr session) outcome st)
          = \<lparr>ApiState.data = JNull, loading = False, error = Some (error_message err)\<rparr>)"
  by (cases outcome)
     (auto simp add: fetchData_def Let_def failed_def http_error_def error_message_def
        auth_headers_def split: sum.splits)

theorem useApi_fetchData_witness:
  "snd (fetchData ''http://localhost:8000/api/v1'' ''/recaps'' (Inr (Some \<lparr>access_token = ''tok''\<rparr>))
         (Resolved \<lparr>status = 404, statusText = ''Not Found'', json = Inl (Error ''no body'')\<rparr>)
         \<lparr>ApiState.data = JNull, loading = False, error = None\<rparr>)
     = [\<lparr>url = ''http://localhost:8000/api/v1/recaps'', req_method = GET,
         headers = [(''Content-Type'', ''application/json''), (''Authorization'', ''Bearer tok'')],
         body = None\<rparr>]
   \<and> fst (fetchData ''http://localhost:8000/api/v1'' ''/recaps'' (Inr (Some \<lparr>access_token = ''tok''\<rparr>))
         (Resolved \<lparr>status = 404, statusText = ''Not Found'', json = Inl (Error ''no body'')\<rparr>)
         \<lparr>ApiState.data = JNull, loading = False, error = None\<rparr>)
     = \<lparr>ApiState.data = JNull, loading = False, error = Some ''HTTP 404: Not Found''\<rparr>"
proof -
  have n: "show_nat 404 = ''404''" by code_simp
  have k: "\<not> ok \<lparr>status = 404, statusText = ''Not Found'', json = Inl (Error ''no body'')\<rparr>"
    by (simp add: ok_def)
  from useApi_fetchData [of "''http://localhost:8000/api/v1''" "''/recaps''"
      "Some \<lparr>access_token = ''tok''\<rparr>"
      "Resolved \<lparr>status = 404, statusText = ''Not Found'', json = Inl (Error ''no body'')\<rparr>"
      "\<lparr>ApiState.data = JNull, loading = False, error = None\<rparr>"
      "\<lparr>access_token = ''tok''\<rparr>"
      "\<lparr>status = 404, statusText = ''Not Found'', json = Inl (Error ''no body'')\<rparr>"]
  show ?thesis using n k by simp
qed

lemma useApi_step_not_immediate:
  "not_immediate e \<Longrightarrow> useApi_step base h e = h"
  by (cases e) simp_all

lemma useApi_run_not_immediate:
  "list_all not_immediate evs \<Longrightarrow> useApi_run base evs h = h"
  unfolding useApi_run_def
  by (induction evs arbitrary: h) (simp_all add: useApi_step_not_immediate)

text \<open>
  C3. A hook whose renders all have \<open>immediate\<close> false issues no request, however often
  its effect runs (whatever the endpoints and dependency changes), until \<open>refetch\<close> is
  called; that call issues one GET.
\<close>

theorem useApi_no_request_before_refetch:
  "list_all not_immediate evs \<Longrightarrow>
     requests (useApi_run base evs (useApi_init False)) = []
     \<and> requests (useApi_step base (useApi_run base evs (useApi_init False))
          (Refetch endpoint (Inr session) outcome))
        = [\<lparr>url = base @ endpoint, req_method = GET, headers = auth_headers session, body = None\<rparr>]"
  by (cases outcome)
     (auto simp add: useApi_run_not_immediate useApi_init_def do_fetch_def fetchData_def Let_def
        split: sum.splits)

theorem useApi_no_request_before_refetch_witness:
  "list_all not_immediate
     [EffectRun ''/a'' False (Inr None) (Rejected (Error ''down'')),
      EffectRun ''/b'' False (Inr None) (Rejected (Error ''down''))]
   \<and> requests (useApi_run ''http://h''
        [EffectRun ''/a'' False (Inr None) (Rejected (Error ''down'')),
         EffectRun ''/b'' False (Inr None) (Rejected (Error ''down''))] (useApi_init False)) = []"
proof -
  have l: "list_all not_immediate
     [EffectRun ''/a'' False (Inr None) (Rejected (Error ''down'')),
      EffectRun ''/b'' False (Inr None) (Rejected (Error ''down''))]" by simp
  from useApi_no_request_before_refetch [OF l, of "''http://h''"]
  show ?thesis using l by simp
qed

text \<open>
  C5, as amended. \<open>mutate\<close> sends \<open>JSON.stringify\<close> of the body when the body is truthy,
  and no body when it is falsy (\<open>undefined\<close>, \<open>null\<close>, \<open>false\<close>, \<open>0\<close>, the empty string). On
  an ok status with a body that parses it returns the parsed body and the hook's error is
  null. On a rejected request, a status that is not ok, a body that does not parse, or a
  session provider that throws, it returns null and the hook's error is a string.
\<close>

theorem mutate_result:
  "map body (snd (snd (mutate base endpoint d m (Inr session) outcome st))) = [mutate_body d]
   \<and> (truthy d \<longrightarrow> mutate_body d = Some (JSON_stringify d))
   \<and> (\<not> truthy d \<longrightarrow> mutate_body d = None)
   \<and> (outcome = Resolved r \<and> ok r \<and> json r = Inr v \<longrightarrow>
        fst (mutate base endpoint d m (Inr session) outcome st) = v
        \<and> error_mut (fst (snd (mutate base endpoint d m (Inr session) outcome st))) = None)
   \<and> (outcome = Rejected err \<or> (outcome = Resolved r \<and> \<not> ok r)
        \<or> (outcome = Resolved r \<and> json r = Inl err) \<longrightarrow>
        fst (mutate base endpoint d m (Inr session) outcome st) = JNull
        \<and> error_mut (fst (snd (mutate base endpoint d m (Inr session) outcome st))) \<noteq> None)
   \<and> fst (mutate base endpoint d m (Inl err) outcome st) = JNull
   \<and> error_mut (fst (snd (mutate base endpoint d m (Inl err) outcome st))) = Some (error_message err)"
  by (cases outcome)
     (auto simp add: mutate_def Let_def mutate_body_def split: sum.splits)

text \<open>
  The claim as stated fails for the body \<open>0\<close>: it is passed, and the request goes out with
  no body.
\<close>

theorem mutate_result_counterexample:
  "JNum 0 \<noteq> JUndefined
   \<and> map body (snd (snd (mutate ''http://h'' ''/x'' (JNum 0) PUT (Inr None)
        (Rejected (Error ''down'')) \<lparr>loading_mut = False, error_mut = None\<rparr>))) = [None]"
  by (simp add: mutate_def Let_def mutate_body_def)

theorem mutate_result_witness:
  "truthy (JObj [(''name'', JStr ''x'')])
   \<and> ok \<lparr>status = 200, statusText = ''OK'', json = Inr (JBool True)\<rparr>
   \<and> mutate ''http://h'' ''/x'' (JObj [(''name'', JStr ''x'')]) POST (Inr None)
        (Resolved \<lparr>status = 200, statusText = ''OK'', json = Inr (JBool True)\<rparr>)
        \<lparr>loading_mut = True, error_mut = Some ''old''\<rparr>
      = (JBool True, \<lparr>loading_mut = False, error_mut = None\<rparr>,
         [\<lparr>url = ''http://h/x'', req_method = POST,
           headers = [(''Content-Type'', ''application/json'')],
           body = Some (JSON_stringify (JObj [(''name'', JStr ''x'')]))\<rparr>])"
proof -
  have k: "ok \<lparr>status = 200, statusText = ''OK'', json = Inr (JBool True)\<rparr>"
    by (simp add: ok_def)
  from mutate_result [of "''http://h''" "''/x''" "JObj [(''name'', JStr ''x'')]" POST None
      "Resolved \<lparr>status = 200, statusText = ''OK'', json = Inr (JBool True)\<rparr>"
      "\<lparr>loading_mut = True, error_mut = Some ''old''\<rparr>"
      "\<lparr>status = 200, statusText = ''OK'', json = Inr (JBool True)\<rparr>" "JBool True"]
  show ?thesis using k
    by (simp add: mutate_def Let_def mutate_body_def auth_headers_def)
qed

section \<open>Pagination of the recap list\<close>

text \<open>
  C8. For a paginated response to the request for page \<open>currentPage\<close> with the page size
  \<open>pageSize\<close>: the client's has-more flag is true exactly when
  \<open>currentPage * pageSize < count\<close>, which is when the response's own \<open>has_more\<close> is true,
  and the list shown has at most \<open>pageSize\<close> entries, whatever the loading and error state
  of the hook. The same holds while there is no response: nothing is shown then.
\<close>

theorem recaps_pagination:
  assumes "paginated currentPage pageSize r"
  shows "(hasMore currentPage (Some r) \<longleftrightarrow> currentPage * pageSize < count r)
       \<and> (hasMore currentPage (Some r) \<longleftrightarrow> has_more r = Some True)
       \<and> int (length (displayed recapsLoading recapsError currentPage (Some r))) \<le> pageSize
       \<and> int (length (displayed recapsLoading recapsError currentPage None)) \<le> pageSize"
  using assms
  by (simp add: paginated_def hasMore_def totalRecaps_def displayed_def recaps_def pageSize_def)

theorem recaps_pagination_witness:
  "paginated 1 pageSize \<lparr>success = True, data = [1, 2, 3, 4, 5, 6 :: nat], count = 7,
        has_more = Some True, total = None\<rparr>
   \<and> hasMore 1 (Some \<lparr>success = True, data = [1, 2, 3, 4, 5, 6 :: nat], count = 7,
        has_more = Some True, total = None\<rparr>)
   \<and> displayed False None 1 (Some \<lparr>success = True, data = [1, 2, 3, 4, 5, 6 :: nat], count = 7,
        has_more = Some True, total = None\<rparr>) = [1, 2, 3, 4, 5, 6]"
proof -
  have p: "paginated 1 pageSize \<lparr>success = True, data = [1, 2, 3, 4, 5, 6 :: nat], count = 7,
        has_more = Some True, total = None\<rparr>"
    by (simp add: paginated_def pageSize_def)
  have d: "displayed False None 1 (Some \<lparr>success = True, data = [1, 2, 3, 4, 5, 6 :: nat], count = 7,
        has_more = Some True, total = None\<rparr>) = [1, 2, 3, 4, 5, 6]"
    by (simp add: displayed_def totalRecaps_def recaps_def)
  from recaps_pagination [OF p, of False None]
  have "hasMore 1 (Some \<lparr>success = True, data = [1, 2, 3, 4, 5, 6 :: nat], count = 7,
        has_more = Some True, total = None\<rparr>)
        \<longleftrightarrow> 1 * pageSize < count \<lparr>success = True, data = [1, 2, 3, 4, 5, 6 :: nat], count = 7,
        has_more = Some True, total = None\<rparr>"
    by (rule conjunct1)
  moreover have "1 * pageSize < count \<lparr>success = True, data = [1, 2, 3, 4, 5, 6 :: nat], count = 7,
        has_more = Some True, total = None\<rparr>"
    by (simp add: pageSize_def)
  ultimately have h: "hasMore 1 (Some \<lparr>success = True, data = [1, 2, 3, 4, 5, 6 :: nat], count = 7,
        has_more = Some True, total = None\<rparr>)"
    by (rule iffD2)
  show ?thesis by (rule conjI [OF p conjI [OF h d]])
qed

section \<open>Reconnection of the realtime channel\<close>

lemma connect_fields:
  "reconnectCountRef (connect options user ctor_error s) = reconnectCountRef s"
  "scheduled (connect options user ctor_error s) = scheduled s"
  by (simp_all add: connect_def split: option.splits)

lemma fold_connect_fields:
  "reconnectCountRef (fold (\<lambda>d. connect options user ctor_error) ds s) = reconnectCountRef s
   \<and> scheduled (fold (\<lambda>d. connect options user ctor_error) ds s) = scheduled s"
  by (induction ds arbitrary: s) (simp_all add: connect_fields)

lemma tick_fields:
  "reconnectCountRef (tick options user ctor_error dt s) = reconnectCountRef s"
  "scheduled (tick options user ctor_error dt s) = scheduled s"
  by (simp_all add: tick_def Let_def fold_connect_fields)

lemma ws_step_balance:
  "\<not> resets e \<Longrightarrow>
     scheduled (ws_step options user ctor_error s e) + reconnectCountRef s
       = scheduled s + reconnectCountRef (ws_step options user ctor_error s e)"
  by (cases e)
     (simp_all add: connect_fields tick_fields onclose_def onerror_def onmessage_def Let_def
        split: option.splits)

lemma ws_step_count_le:
  "reconnectCountRef s \<le> reconnectAttempts options \<Longrightarrow>
     reconnectCountRef (ws_step options user ctor_error s e) \<le> reconnectAttempts options"
  by (cases e)
     (simp_all add: connect_fields tick_fields onclose_def onerror_def onmessage_def onopen_def
        disconnect_def clearTimeout_def Let_def split: option.splits)

lemma ws_run_count_le:
  "reconnectCountRef s \<le> reconnectAttempts options \<Longrightarrow>
     reconnectCountRef (ws_run options user ctor_error evs s) \<le> reconnectAttempts options"
  unfolding ws_run_def
  by (induction evs arbitrary: s) (simp_all add: ws_step_count_le)

lemma ws_run_balance:
  "list_all (\<lambda>e. \<not> resets e) evs \<Longrightarrow>
     scheduled (ws_run options user ctor_error evs s) + reconnectCountRef s
       = scheduled s + reconnectCountRef (ws_run options user ctor_error evs s)"
  unfolding ws_run_def
proof (induction evs arbitrary: s)
  case Nil
  then show ?case by simp
next
  case (Cons e evs)
  from Cons.prems have e: "\<not> resets e" and r: "list_all (\<lambda>e. \<not> resets e) evs" by simp_all
  from Cons.IH [OF r, of "ws_step options user ctor_error s e"] ws_step_balance [OF e, of options user ctor_error s]
  show ?case by simp
qed

lemma onclose_clean:
  "timeouts (onclose options 1000 s) = timeouts s"
  "scheduled (onclose options 1000 s) = scheduled s"
  by (simp_all add: onclose_def Let_def)

lemma disconnect_fields:
  "scheduled (disconnect s) = scheduled s"
  "reconnectCountRef (disconnect s) = 0"
  "reconnectTimeoutRef (disconnect s) = None"
  "wsRef (disconnect s) = None"
  "set (timeouts (disconnect s)) \<subseteq> set (timeouts s)"
  by (auto simp add: disconnect_def clearTimeout_def Let_def split: option.splits)

lemma disconnect_closes:
  "wsRef s \<noteq> None \<Longrightarrow> closes (disconnect s) = closes s @ [(1000, ''User initiated disconnect'')]"
  by (auto simp add: disconnect_def clearTimeout_def Let_def split: option.splits)

lemma disconnect_cancels:
  "reconnectTimeoutRef s = Some t \<Longrightarrow> t \<notin> fst ` set (timeouts (disconnect s))"
  by (auto simp add: disconnect_def clearTimeout_def Let_def split: option.splits)

lemma tick_due:
  assumes "timeouts s = [(i, due)]" "due \<le> clock s + dt"
  shows "tick options user ctor_error dt s
           = connect options user ctor_error (s\<lparr>clock := clock s + dt, timeouts := []\<rparr>)"
  using assms by (simp add: tick_def Let_def)

text \<open>
  C7, as amended. A close with code 1000 sets no reconnection timeout. That is the code of
  the close the application initiates: \<open>disconnect\<close> calls \<open>close(1000, ...)\<close> on the socket,
  clears the timeout held in \<open>reconnectTimeoutRef\<close> and resets the counter, and the close
  event that answers it sets no timeout. A close with another code sets one timeout, due
  after \<open>reconnectInterval\<close>, whose callback is \<open>connect\<close>, as long as the counter is below
  \<open>reconnectAttempts\<close>, and none once the counter has reached it. A successful open resets
  the counter. Over any stretch of events without a successful open and without a
  disconnect at most \<open>reconnectAttempts\<close> timeouts are set, and the counter itself never
  exceeds \<open>reconnectAttempts\<close>.
\<close>

theorem reconnect_bounded_between_resets:
  "timeouts (onclose options 1000 s) = timeouts s
   \<and> scheduled (onclose options 1000 s) = scheduled s
   \<and> (wsRef s \<noteq> None \<longrightarrow>
        closes (disconnect s) = closes s @ [(1000, ''User initiated disconnect'')])
   \<and> (reconnectTimeoutRef s = Some t \<longrightarrow>
        t \<notin> fst ` set (timeouts (ws_run options user ctor_error [Disconnect, Close 1000] s)))
   \<and> set (timeouts (ws_run options user ctor_error [Disconnect, Close 1000] s)) \<subseteq> set (timeouts s)
   \<and> scheduled (ws_run options user ctor_error [Disconnect, Close 1000] s) = scheduled s
   \<and> reconnectCountRef (disconnect s) = 0
   \<and> (code \<noteq> 1000 \<and> reconnectCountRef s < reconnectAttempts options \<longrightarrow>
        timeouts (onclose options code s)
          = timeouts s @ [(nextTimeout s, clock s + reconnectInterval options)]
        \<and> scheduled (onclose options code s) = scheduled s + 1
        \<and> reconnectCountRef (onclose options code s) = reconnectCountRef s + 1)
   \<and> (timeouts s = [(i, due)] \<and> due \<le> clock s + dt \<longrightarrow>
        tick options user ctor_error dt s
          = connect options user ctor_error (s\<lparr>clock := clock s + dt, timeouts := []\<rparr>))
   \<and> (reconnectAttempts options \<le> reconnectCountRef s' \<longrightarrow>
        timeouts (onclose options code s') = timeouts s'
        \<and> scheduled (onclose options code s') = scheduled s')
   \<and> reconnectCountRef (onopen s) = 0
   \<and> (list_all (\<lambda>e. \<not> resets e) evs \<and> reconnectCountRef s \<le> reconnectAttempts options \<longrightarrow>
        scheduled (ws_run options user ctor_error evs s)
          \<le> scheduled s + (reconnectAttempts options - reconnectCountRef s))
   \<and> reconnectCountRef (ws_run options user ctor_error evs ws_init) \<le> reconnectAttempts options"
proof -
  have a: "list_all (\<lambda>e. \<not> resets e) evs \<and> reconnectCountRef s \<le> reconnectAttempts options \<longrightarrow>
        scheduled (ws_run options user ctor_error evs s)
          \<le> scheduled s + (reconnectAttempts options - reconnectCountRef s)"
  proof
    assume h: "list_all (\<lambda>e. \<not> resets e) evs \<and> reconnectCountRef s \<le> reconnectAttempts options"
    then have "scheduled (ws_run options user ctor_error evs s) + reconnectCountRef s
       = scheduled s + reconnectCountRef (ws_run options user ctor_error evs s)"
      using ws_run_balance by blast
    moreover have "reconnectCountRef (ws_run options user ctor_error evs s) \<le> reconnectAttempts options"
      using h ws_run_count_le by blast
    ultimately show "scheduled (ws_run options user ctor_error evs s)
          \<le> scheduled s + (reconnectAttempts options - reconnectCountRef s)" using h by linarith
  qed
  have b: "reconnectCountRef (ws_run options user ctor_error evs ws_init) \<le> reconnectAttempts options"
    by (rule ws_run_count_le) (simp add: ws_init_def)
  have r: "ws_run options user ctor_error [Disconnect, Close 1000] s
             = onclose options 1000 (disconnect s)"
    by (simp add: ws_run_def)
  have c: "reconnectTimeoutRef s = Some t \<longrightarrow>
        t \<notin> fst ` set (timeouts (ws_run options user ctor_error [Disconnect, Close 1000] s))"
    unfolding r onclose_clean using disconnect_cancels by blast
  have d: "set (timeouts (ws_run options user ctor_error [Disconnect, Close 1000] s)) \<subseteq> set (timeouts s)"
    unfolding r onclose_clean by (rule disconnect_fields)
  have e: "scheduled (ws_run options user ctor_error [Disconnect, Close 1000] s) = scheduled s"
    unfolding r onclose_clean by (rule disconnect_fields)
  have f: "wsRef s \<noteq> None \<longrightarrow>
        closes (disconnect s) = closes s @ [(1000, ''User initiated disconnect'')]"
    using disconnect_closes by blast
  have g: "timeouts s = [(i, due)] \<and> due \<le> clock s + dt \<longrightarrow>
        tick options user ctor_error dt s
          = connect options user ctor_error (s\<lparr>clock := clock s + dt, timeouts := []\<rparr>)"
    using tick_due by blast
  have h: "code \<noteq> 1000 \<and> reconnectCountRef s < reconnectAttempts options \<longrightarrow>
        timeouts (onclose options code s)
          = timeouts s @ [(nextTimeout s, clock s + reconnectInterval options)]
        \<and> scheduled (onclose options code s) = scheduled s + 1
        \<and> reconnectCountRef (onclose options code s) = reconnectCountRef s + 1"
    by (simp add: onclose_def Let_def)
  have k: "reconnectAttempts options \<le> reconnectCountRef s' \<longrightarrow>
        timeouts (onclose options code s') = timeouts s'
        \<and> scheduled (onclose options code s') = scheduled s'"
    by (simp add: onclose_def Let_def)
  have l: "reconnectCountRef (onopen s) = 0"
    by (simp add: onopen_def)
  show ?thesis
    using a b c d e f g h k l onclose_clean [of options s] disconnect_fields(2) [of s] by blast
qed

text \<open>
  The claim as stated bounds the total number of attempts. With \<open>reconnectAttempts = 1\<close>: the
  connection drops, the reconnection succeeds, the connection drops again. Two reconnections
  have been scheduled.
\<close>

theorem reconnect_bounded_between_resets_counterexample:
  "\<not> scheduled (ws_run \<lparr>enabled = True, reconnectAttempts = 1, reconnectInterval = 3000\<rparr> True None
        [Connect, Close 1006, Tick 3000, Open, Close 1006] ws_init)
      \<le> reconnectAttempts \<lparr>enabled = True, reconnectAttempts = 1, reconnectInterval = 3000\<rparr>"
  by (simp add: ws_run_def ws_init_def connect_def onclose_def onopen_def tick_def Let_def)

theorem reconnect_bounded_between_resets_witness:
  "wsRef (ws_run \<lparr>enabled = True, reconnectAttempts = 2, reconnectInterval = 3000\<rparr> True None
            [Connect, Close 1006] ws_init) \<noteq> None
   \<and> reconnectTimeoutRef (ws_run \<lparr>enabled = True, reconnectAttempts = 2, reconnectInterval = 3000\<rparr>
            True None [Connect, Close 1006] ws_init) = Some 1
   \<and> timeouts (ws_run \<lparr>enabled = True, reconnectAttempts = 2, reconnectInterval = 3000\<rparr>
            True None [Connect, Close 1006] ws_init) = [(1, 3000)]
   \<and> reconnectCountRef (ws_run \<lparr>enabled = True, reconnectAttempts = 2, reconnectInterval = 3000\<rparr>
            True None [Connect, Close 1006] ws_init) = 1
   \<and> reconnectCountRef (ws_run \<lparr>enabled = True, reconnectAttempts = 2, reconnectInterval = 3000\<rparr>
            True None [Connect, Close 1006, Close 1006] ws_init) = 2
   \<and> list_all (\<lambda>e. \<not> resets e) [Tick 3000, Close 1006, Tick 3000, Close 1006]
   \<and> timeouts (onclose \<lparr>enabled = True, reconnectAttempts = 2, reconnectInterval = 3000\<rparr> 1006
        (ws_run \<lparr>enabled = True, reconnectAttempts = 2, reconnectInterval = 3000\<rparr>
            True None [Connect, Close 1006] ws_init)) = [(1, 3000), (2, 3000)]
   \<and> timeouts (ws_run \<lparr>enabled = True, reconnectAttempts = 2, reconnectInterval = 3000\<rparr> True None
        [Disconnect, Close 1000]
        (ws_run \<lparr>enabled = True, reconnectAttempts = 2, reconnectInterval = 3000\<rparr>
            True None [Connect, Close 1006] ws_init)) = []
   \<and> scheduled (ws_run \<lparr>enabled = True, reconnectAttempts = 2, reconnectInterval = 3000\<rparr> True None
        [Tick 3000, Close 1006, Tick 3000, Close 1006]
        (ws_run \<lparr>enabled = True, reconnectAttempts = 2, reconnectInterval = 3000\<rparr>
            True None [Connect, Close 1006] ws_init)) = 2"
proof -
  let ?O = "\<lparr>enabled = True, reconnectAttempts = 2, reconnectInterval = 3000\<rparr>"
  let ?S = "ws_run ?O True None [Connect, Close 1006] ws_init"
  let ?S' = "ws_run ?O True None [Connect, Close 1006, Close 1006] ws_init"
  let ?evs = "[Tick 3000, Close 1006, Tick 3000, Close 1006]"
  have s: "?S = \<lparr>isConnected = False, lastMessage = None, error_ws = None, wsRef = Some CLOSED,
              reconnectCountRef = 1, reconnectTimeoutRef = Some 1, timeouts = [(1, 3000)],
              clock = 0, nextTimeout = 2, scheduled = 1, closes = []\<rparr>"
    by (simp add: ws_run_def ws_init_def connect_def onclose_def Let_def)
  have s': "reconnectCountRef ?S' = 2"
    by (simp add: ws_run_def ws_init_def connect_def onclose_def Let_def)
  have l: "list_all (\<lambda>e. \<not> resets e) ?evs"
    by simp
  have d: "timeouts (ws_run ?O True None [Disconnect, Close 1000] ?S) = []"
    unfolding s by (simp add: ws_run_def disconnect_def clearTimeout_def onclose_def Let_def)
  have v: "scheduled (ws_run ?O True None ?evs ?S) = 2"
    unfolding s by (simp add: ws_run_def connect_def onclose_def tick_def Let_def)
  note T = reconnect_bounded_between_resets [where options = ?O and s = ?S and code = 1006
      and s' = ?S' and evs = ?evs and user = True and ctor_error = None and t = 1 and i = 1
      and due = 3000 and dt = 3000]
  have "1006 \<noteq> (1000::nat) \<and> reconnectCountRef ?S < reconnectAttempts ?O"
    unfolding s by simp
  with T have "timeouts (onclose ?O 1006 ?S)
          = timeouts ?S @ [(nextTimeout ?S, clock ?S + reconnectInterval ?O)]"
    by blast
  then have c: "timeouts (onclose ?O 1006 ?S) = [(1, 3000), (2, 3000)]"
    unfolding s by simp
  have w: "wsRef ?S \<noteq> None" "reconnectTimeoutRef ?S = Some 1" "timeouts ?S = [(1, 3000)]"
    "reconnectCountRef ?S = 1"
    unfolding s by simp_all
  show ?thesis
    by (rule conjI [OF w(1) conjI [OF w(2) conjI [OF w(3) conjI [OF w(4) conjI [OF s'
          conjI [OF l conjI [OF c conjI [OF d v]]]]]]]])
qed

section \<open>Processed authorization codes\<close>

lemma handle_processed: "code \<in> processedCodes s \<Longrightarrow> handleYahooCallback code st reply imported s = s"
  by (simp add: handleYahooCallback_def)

lemma handle_fresh_fields:
  assumes "code \<notin> processedCodes s"
  shows "processedCodes (handleYahooCallback code st reply imported s) = insert code (processedCodes s)"
    and "expiries (handleYahooCallback code st reply imported s) = expiries s @ [(clock_y s + 300000, code)]"
    and "posted (handleYahooCallback code st reply imported s) = posted s @ [(code, st)]"
    and "clock_y (handleYahooCallback code st reply imported s) = clock_y s"
  using assms
  by (simp_all add: handleYahooCallback_def Let_def split: callback_result.splits)

lemma handle_clock: "clock_y (handleYahooCallback code st reply imported s) = clock_y s"
  by (cases "code \<in> processedCodes s") (simp_all add: handle_processed handle_fresh_fields)

lemma advance_fields:
  "processedCodes (advance dt s)
     = processedCodes s - snd ` set (filter (\<lambda>(t, c). t \<le> clock_y s + dt) (expiries s))"
  "expiries (advance dt s) = filter (\<lambda>(t, c). \<not> t \<le> clock_y s + dt) (expiries s)"
  "posted (advance dt s) = posted s"
  "clock_y (advance dt s) = clock_y s + dt"
  by (simp_all add: advance_def Let_def)

lemma expiries_ok_handle:
  assumes "expiries_ok s"
  shows "expiries_ok (handleYahooCallback code st reply imported s)"
proof (cases "code \<in> processedCodes s")
  case True
  with assms show ?thesis by (simp add: handle_processed)
next
  case False
  from assms have sub: "snd ` set (expiries s) \<subseteq> processedCodes s"
    and d: "distinct (map snd (expiries s))" by (simp_all add: expiries_ok_def)
  from sub False have "code \<notin> snd ` set (expiries s)" by blast
  with sub d show ?thesis
    unfolding expiries_ok_def handle_fresh_fields [OF False] by auto
qed

lemma distinct_snd_unique:
  "distinct (map snd xs) \<Longrightarrow> (a, c) \<in> set xs \<Longrightarrow> (b, c) \<in> set xs \<Longrightarrow> a = b"
proof (induction xs)
  case Nil
  then show ?case by simp
next
  case (Cons x xs)
  from Cons.prems(1) have nx: "snd x \<notin> snd ` set xs" and dx: "distinct (map snd xs)" by simp_all
  show ?case
  proof (cases "(a, c) = x")
    case True
    show ?thesis
    proof (cases "(b, c) = x")
      case b: True
      have "(a, c) = (b, c)" unfolding True b ..
      then show ?thesis by simp
    next
      case False
      with Cons.prems(3) have "(b, c) \<in> set xs" by simp
      then have "c \<in> snd ` set xs" by force
      moreover from True have "snd x = c" by auto
      ultimately show ?thesis using nx by simp
    qed
  next
    case False
    with Cons.prems(2) have a: "(a, c) \<in> set xs" by simp
    show ?thesis
    proof (cases "(b, c) = x")
      case True
      from a have "c \<in> snd ` set xs" by force
      moreover from True have "snd x = c" by auto
      ultimately show ?thesis using nx by simp
    next
      case b: False
      with Cons.prems(3) have "(b, c) \<in> set xs" by simp
      from Cons.IH [OF dx a this] show ?thesis .
    qed
  qed
qed

lemma expiries_ok_advance:
  assumes "expiries_ok s"
  shows "expiries_ok (advance dt s)"
proof -
  from assms have sub: "snd ` set (expiries s) \<subseteq> processedCodes s"
    and d: "distinct (map snd (expiries s))" by (simp_all add: expiries_ok_def)
  let ?now = "clock_y s + dt"
  have "snd ` set (filter (\<lambda>(t, c). \<not> t \<le> ?now) (expiries s))
          \<subseteq> processedCodes s - snd ` set (filter (\<lambda>(t, c). t \<le> ?now) (expiries s))"
  proof
    fix c assume "c \<in> snd ` set (filter (\<lambda>(t, c). \<not> t \<le> ?now) (expiries s))"
    then obtain t where t: "(t, c) \<in> set (expiries s)" "\<not> t \<le> ?now" by auto
    have "c \<notin> snd ` set (filter (\<lambda>(t, c). t \<le> ?now) (expiries s))"
    proof
      assume "c \<in> snd ` set (filter (\<lambda>(t, c). t \<le> ?now) (expiries s))"
      then obtain t' where t': "(t', c) \<in> set (expiries s)" "t' \<le> ?now" by auto
      from d t(1) t'(1) have "t = t'" by (rule distinct_snd_unique)
      with t(2) t'(2) show False by simp
    qed
    moreover from t(1) sub have "c \<in> processedCodes s" by force
    ultimately show "c \<in> processedCodes s - snd ` set (filter (\<lambda>(t, c). t \<le> ?now) (expiries s))"
      by simp
  qed
  moreover have "distinct (map snd (filter (\<lambda>(t, c). \<not> t \<le> ?now) (expiries s)))"
    using d by (rule distinct_map_filter)
  ultimately show ?thesis unfolding expiries_ok_def advance_fields by simp
qed

lemma expiries_ok_run: "expiries_ok s \<Longrightarrow> expiries_ok (yahoo_run evs s)"
  unfolding yahoo_run_def
proof (induction evs arbitrary: s)
  case Nil
  then show ?case by simp
next
  case (Cons e evs)
  have "expiries_ok (yahoo_step s e)"
    using Cons.prems by (cases e) (simp_all add: expiries_ok_handle expiries_ok_advance)
  from Cons.IH [OF this] show ?case by simp
qed

lemma expiries_ok_init: "expiries_ok yahoo_init"
  by (simp add: expiries_ok_def yahoo_init_def)

lemma posted_for_handle_other:
  "c \<noteq> code \<Longrightarrow> posted_for code (handleYahooCallback c st reply imported s) = posted_for code s"
  by (cases "c \<in> processedCodes s")
     (simp_all add: handle_processed handle_fresh_fields posted_for_def)

lemma held_step:
  assumes "held code T s" "clock_y s + elapsed [e] < T"
  shows "held code T (yahoo_step s e) \<and> posted_for code (yahoo_step s e) = posted_for code s"
proof (cases e)
  case (Callback c st reply imported)
  show ?thesis
  proof (cases "c \<in> processedCodes s")
    case True
    with assms Callback show ?thesis by (simp add: handle_processed)
  next
    case False
    with assms(1) have ne: "c \<noteq> code" by (auto simp add: held_def)
    with assms(1) False Callback show ?thesis
      by (auto simp add: held_def handle_fresh_fields posted_for_def)
  qed
next
  case (Advance dt)
  with assms(2) have lt: "clock_y s + dt < T" by simp
  have "code \<notin> snd ` set (filter (\<lambda>(t, c). t \<le> clock_y s + dt) (expiries s))"
  proof
    assume "code \<in> snd ` set (filter (\<lambda>(t, c). t \<le> clock_y s + dt) (expiries s))"
    then obtain t where "(t, code) \<in> set (expiries s)" "t \<le> clock_y s + dt" by auto
    with assms(1) lt show False by (auto simp add: held_def)
  qed
  with assms(1) Advance show ?thesis
    by (auto simp add: held_def advance_fields posted_for_def)
qed

lemma clock_step: "clock_y (yahoo_step s e) = clock_y s + elapsed [e]"
  by (cases e) (simp_all add: handle_clock advance_fields)

lemma held_run:
  "held code T s \<Longrightarrow> clock_y s + elapsed evs < T \<Longrightarrow>
     held code T (yahoo_run evs s) \<and> posted_for code (yahoo_run evs s) = posted_for code s"
  unfolding yahoo_run_def
proof (induction evs arbitrary: s)
  case Nil
  then show ?case by simp
next
  case (Cons e evs)
  have el: "elapsed (e # evs) = elapsed [e] + elapsed evs" by (cases e) simp_all
  with Cons.prems have 1: "clock_y s + elapsed [e] < T" by simp
  from held_step [OF Cons.prems(1) 1]
  have h: "held code T (yahoo_step s e)" and p: "posted_for code (yahoo_step s e) = posted_for code s"
    by simp_all
  have "clock_y (yahoo_step s e) + elapsed evs < T"
    using Cons.prems(2) el by (simp add: clock_step)
  from Cons.IH [OF h this] p show ?case by simp
qed

lemma held_after_submit:
  assumes "expiries_ok s" "code \<notin> processedCodes s"
  shows "held code (clock_y s + 300000) (handleYahooCallback code st reply imported s)"
proof -
  from assms have "code \<notin> snd ` set (expiries s)" by (auto simp add: expiries_ok_def)
  then have "\<And>t. (t, code) \<notin> set (expiries s)" by force
  then show ?thesis
    unfolding held_def handle_fresh_fields [OF assms(2)] by auto
qed

text \<open>
  C4. In every reachable state, \<open>handleYahooCallback\<close> with a code that is in the set of
  processed codes changes nothing and posts nothing. A code that is not in the set is posted
  once and put in the set, and over any events that take less than 300000 ms in all it stays
  in the set and is not posted again.
\<close>

theorem processed_code_not_resubmitted:
  assumes "s = yahoo_run evs0 yahoo_init"
  shows "(code \<in> processedCodes s \<longrightarrow> handleYahooCallback code st reply imported s = s)
     \<and> (code \<notin> processedCodes s \<and> elapsed evs < 300000 \<longrightarrow>
          posted_for code (handleYahooCallback code st reply imported s)
            = posted_for code s @ [(code, st)]
          \<and> code \<in> processedCodes (yahoo_run evs (handleYahooCallback code st reply imported s))
          \<and> posted_for code (yahoo_run evs (handleYahooCallback code st reply imported s))
            = posted_for code (handleYahooCallback code st reply imported s))"
proof -
  have ok: "expiries_ok s" unfolding assms using expiries_ok_init by (rule expiries_ok_run)
  have "code \<notin> processedCodes s \<and> elapsed evs < 300000 \<longrightarrow>
          posted_for code (handleYahooCallback code st reply imported s)
            = posted_for code s @ [(code, st)]
          \<and> code \<in> processedCodes (yahoo_run evs (handleYahooCallback code st reply imported s))
          \<and> posted_for code (yahoo_run evs (handleYahooCallback code st reply imported s))
            = posted_for code (handleYahooCallback code st reply imported s)"
  proof
    assume a: "code \<notin> processedCodes s \<and> elapsed evs < 300000"
    let ?s1 = "handleYahooCallback code st reply imported s"
    from a have f: "code \<notin> processedCodes s" by simp
    have h: "held code (clock_y s + 300000) ?s1" using ok f by (rule held_after_submit)
    have c: "clock_y ?s1 + elapsed evs < clock_y s + 300000" using a by (simp add: handle_clock)
    from held_run [OF h c]
    have "code \<in> processedCodes (yahoo_run evs ?s1)"
      and "posted_for code (yahoo_run evs ?s1) = posted_for code ?s1"
      by (simp_all add: held_def)
    moreover have "posted_for code ?s1 = posted_for code s @ [(code, st)]"
      by (simp add: posted_for_def handle_fresh_fields [OF f])
    ultimately show "posted_for code ?s1 = posted_for code s @ [(code, st)]
          \<and> code \<in> processedCodes (yahoo_run evs ?s1)
          \<and> posted_for code (yahoo_run evs ?s1) = posted_for code ?s1" by simp
  qed
  then show ?thesis by (simp add: handle_processed)
qed

theorem processed_code_not_resubmitted_witness:
  "''ABC123'' \<notin> processedCodes yahoo_init
   \<and> elapsed [Advance 299999, Callback ''ABC123'' (Some ''xyz'') Failed None] < 300000
   \<and> posted_for ''ABC123''
        (yahoo_run [Advance 299999, Callback ''ABC123'' (Some ''xyz'') Failed None]
          (handleYahooCallback ''ABC123'' (Some ''xyz'') Failed None yahoo_init))
      = [(''ABC123'', Some ''xyz'')]
   \<and> ''ABC123'' \<notin> processedCodes
        (yahoo_run [Advance 300000] (handleYahooCallback ''ABC123'' (Some ''xyz'') Failed None yahoo_init))"
proof -
  have i: "yahoo_init = yahoo_run [] yahoo_init" by (simp add: yahoo_run_def)
  have g: "''ABC123'' \<notin> processedCodes
        (yahoo_run [Advance 300000] (handleYahooCallback ''ABC123'' (Some ''xyz'') Failed None yahoo_init))"
    by (simp add: yahoo_run_def advance_def handleYahooCallback_def yahoo_init_def Let_def)
  have f: "''ABC123'' \<notin> processedCodes yahoo_init" by (simp add: yahoo_init_def)
  have e: "elapsed [Advance 299999, Callback ''ABC123'' (Some ''xyz'') Failed None] < 300000"
    by simp
  have p: "posted_for ''ABC123'' yahoo_init = []" by (simp add: posted_for_def yahoo_init_def)
  from processed_code_not_resubmitted [OF i, of "''ABC123''" "Some ''xyz''" Failed None
      "[Advance 299999, Callback ''ABC123'' (Some ''xyz'') Failed None]"]
  show ?thesis using f e p g by simp
qed

section \<open>The editor: auto-save and the Save button\<close>

lemma setState_fields:
  "rendered (setState f s) = rendered s"
  "current (setState f s) = f (current s)"
  "effectDeps (setState f s) = effectDeps s"
  "effectCleanup (setState f s) = effectCleanup s"
  "initDeps (setState f s) = initDeps s"
  "timers (setState f s) = timers s"
  "nextTimer (setState f s) = nextTimer s"
  "clock_ed (setState f s) = clock_ed s"
  "inflight (setState f s) = inflight s"
  "trace (setState f s) = trace s"
  by (simp_all add: setState_def)

lemma setState_pending:
  "pendingSince s = Some t \<Longrightarrow> pendingSince (setState f s) = Some t"
  by (simp add: setState_def)

lemma quiet_refl: "quiet s s"
  by (simp add: quiet_def)

lemma quiet_trans: "quiet s s' \<Longrightarrow> quiet s' s'' \<Longrightarrow> quiet s s''"
  by (simp add: quiet_def)

lemma quiet_setState:
  "(\<And>v. autoSaveTimeout (f v) = autoSaveTimeout v) \<Longrightarrow> quiet s (setState f s)"
  by (simp add: quiet_def setState_fields setState_pending auto_saves_def)

lemma quiet_record_effect:
  "who = Manual \<or> (\<forall>c t. e \<noteq> OnSave c t) \<Longrightarrow> quiet s (record_effect who e s)"
  by (cases e) (auto simp add: quiet_def record_effect_def auto_saves_def)

lemma quiet_inflight: "quiet s (s\<lparr>inflight := xs\<rparr>)"
  by (simp add: quiet_def auto_saves_def)

lemma quiet_initDeps: "quiet s (s\<lparr>initDeps := x\<rparr>)"
  by (simp add: quiet_def auto_saves_def)

lemma quiet_handleSave: "quiet s (handleSave s)"
proof (cases "trim (title (rendered s)) = []")
  case True
  then show ?thesis by (simp add: handleSave_def quiet_record_effect)
next
  case False
  let ?a = "setState (\<lambda>v. v\<lparr>isSaving := True\<rparr>) s"
  let ?b = "record_effect Manual (OnSave (editorState (rendered s)) (title (rendered s))) ?a"
  have "quiet s ?a" by (rule quiet_setState) simp
  moreover have "quiet ?a ?b" by (rule quiet_record_effect) simp
  moreover have "quiet ?b (?b\<lparr>inflight := inflight s @ [Manual]\<rparr>)" by (rule quiet_inflight)
  ultimately have "quiet s (?b\<lparr>inflight := inflight s @ [Manual]\<rparr>)" by (blast intro: quiet_trans)
  then show ?thesis using False by (simp add: handleSave_def)
qed

lemma quiet_clickSave: "quiet s (clickSave isLoading s)"
  by (simp add: clickSave_def quiet_refl quiet_handleSave)

lemma quiet_settled: "quiet s (settled who saved s)"
proof -
  let ?m = "(if saved then setState (\<lambda>v. v\<lparr>hasUnsavedChanges := False\<rparr>) s
        else (case who of
                Auto \<Rightarrow> record_effect Auto (ConsoleError ''Auto-save failed:'') s
              | Manual \<Rightarrow> record_effect Manual (Alert ''Failed to save recap. Please try again.'')
                            (record_effect Manual (ConsoleError ''Save failed:'') s)))"
  have "quiet s ?m"
    by (cases who) (auto intro!: quiet_setState quiet_record_effect intro: quiet_trans)
  moreover have "quiet ?m (setState (\<lambda>v. v\<lparr>isSaving := False\<rparr>) ?m)" by (rule quiet_setState) simp
  ultimately show ?thesis unfolding settled_def by (rule quiet_trans)
qed

lemma quiet_handleTitleChange: "quiet s (handleTitleChange v s)"
  unfolding handleTitleChange_def
  by (rule quiet_trans [OF quiet_setState quiet_setState]) simp_all

lemma quiet_updateListener: "quiet s (updateListener v s)"
  unfolding updateListener_def
  by (rule quiet_trans [OF quiet_setState quiet_setState]) simp_all

lemma quiet_initEffect: "quiet s (initEffect content s)"
proof -
  let ?m = "(if content \<noteq> [] \<and> editorState (rendered s) = []
                then setState (\<lambda>v. v\<lparr>hasUnsavedChanges := False\<rparr>)
                       (setState (\<lambda>v. v\<lparr>editorState := content\<rparr>) s)
                else s)"
  have "quiet s ?m"
    by (auto intro!: quiet_refl quiet_trans [OF quiet_setState quiet_setState])
  moreover have "quiet ?m (?m\<lparr>initDeps := Some (editorState (rendered s))\<rparr>)" by (rule quiet_initDeps)
  ultimately show ?thesis unfolding initEffect_def Let_def by (rule quiet_trans)
qed

lemma armed_ok_quiet: "armed_ok s \<Longrightarrow> quiet s s' \<Longrightarrow> armed_ok s'"
  unfolding armed_ok_def quiet_def by auto


lemma elapse_in_time:
  assumes "armed_ok s" "in_time s (Elapse dt)"
  shows "elapse dt s = s\<lparr>clock_ed := clock_ed s + dt\<rparr>"
proof -
  have "filter (\<lambda>(i, t, c). t \<le> clock_ed s + dt) (timers s) = []
        \<and> filter (\<lambda>(i, t, c). \<not> t \<le> clock_ed s + dt) (timers s) = timers s"
    using assms unfolding armed_ok_def by auto
  then show ?thesis by (simp add: elapse_def Let_def)
qed

lemma armed_ok_elapse:
  assumes "armed_ok s" "in_time s (Elapse dt)"
  shows "armed_ok (elapse dt s)"
  using assms(1) unfolding elapse_in_time [OF assms] armed_ok_def auto_saves_def by simp

lemma cleared_one:
  assumes "ys = filter (\<lambda>(i, due, c). i \<noteq> u) xs"
    and "xs = [] \<or> (\<exists>i due c. xs = [(i, due, c)] \<and> P i)"
  shows "ys = [] \<or> (\<exists>i due c. ys = [(i, due, c)] \<and> P i)"
proof (cases "xs = []")
  case True
  then show ?thesis using assms(1) by simp
next
  case False
  with assms(2) obtain i due c where x: "xs = [(i, due, c)]" and p: "P i" by blast
  show ?thesis
  proof (cases "i = u")
    case True
    then show ?thesis using assms(1) x by simp
  next
    case False
    then have "ys = [(i, due, c)]" using assms(1) x by simp
    with p show ?thesis by blast
  qed
qed

lemma autoSaveEffect_ok:
  assumes r: "rendered x = current x" and p: "pendingSince x = None"
    and f: "\<forall>t. autoSaveTimeout (current x) = Some t \<longrightarrow> t < nextTimer x"
    and t: "timers x = [] \<or> (\<exists>i due c. timers x = [(i, due, c)] \<and> autoSaveTimeout (current x) = Some i)"
    and a: "auto_saves x = []"
  shows "armed_ok (autoSaveEffect x)"
    and "fst ` set (timers (autoSaveEffect x)) \<subseteq> {nextTimer x}"
proof -
  define s1 where "s1 = (case effectCleanup x of None \<Rightarrow> x | Some t \<Rightarrow> clear_timer t x)"
  define s2 where "s2 = (case autoSaveTimeout (rendered x) of None \<Rightarrow> s1 | Some t \<Rightarrow> clear_timer t s1)"
  have s1: "current s1 = current x" "pendingSince s1 = None" "nextTimer s1 = nextTimer x"
    "trace s1 = trace x" "clock_ed s1 = clock_ed x"
    using p unfolding s1_def clear_timer_def by (simp_all split: option.splits)
  have t1: "timers s1 = [] \<or> (\<exists>i due c. timers s1 = [(i, due, c)] \<and> autoSaveTimeout (current x) = Some i)"
  proof (cases "effectCleanup x")
    case None
    then show ?thesis using t by (simp add: s1_def)
  next
    case (Some u)
    then have "timers s1 = filter (\<lambda>(i, due, c). i \<noteq> u) (timers x)"
      by (simp add: s1_def clear_timer_def)
    then show ?thesis using t by (rule cleared_one)
  qed
  have s2: "current s2 = current x" "pendingSince s2 = None" "nextTimer s2 = nextTimer x"
    "trace s2 = trace x" "clock_ed s2 = clock_ed x" "timers s2 = []"
    using s1 t1 r unfolding s2_def clear_timer_def by (auto split: option.splits)
  have e: "autoSaveEffect x =
     (if hasUnsavedChanges (rendered x)
      then setState (\<lambda>v. v\<lparr>autoSaveTimeout := Some (nextTimer s2)\<rparr>)
             (s2\<lparr>timers := timers s2 @ [(nextTimer s2, clock_ed s2 + 2000, rendered x)],
                 nextTimer := nextTimer s2 + 1\<rparr>)
      else s2)\<lparr>effectCleanup := autoSaveTimeout (rendered x), effectDeps := Some (rendered x)\<rparr>"
    unfolding autoSaveEffect_def Let_def s1_def s2_def ..
  show "fst ` set (timers (autoSaveEffect x)) \<subseteq> {nextTimer x}"
    using s2 unfolding e setState_def by simp
  show "armed_ok (autoSaveEffect x)"
  proof (cases "hasUnsavedChanges (rendered x)")
    case False
    then show ?thesis using s2 f a unfolding e armed_ok_def auto_saves_def by simp
  next
    case True
    have n: "(current x)\<lparr>autoSaveTimeout := Some (nextTimer x)\<rparr> \<noteq> current x"
    proof
      assume "(current x)\<lparr>autoSaveTimeout := Some (nextTimer x)\<rparr> = current x"
      then have "autoSaveTimeout ((current x)\<lparr>autoSaveTimeout := Some (nextTimer x)\<rparr>) = autoSaveTimeout (current x)"
        by simp
      then have "autoSaveTimeout (current x) = Some (nextTimer x)" by simp
      with f show False by auto
    qed
    have m: "autoSaveTimeout (rendered x) \<noteq> Some (nextTimer x)" using f r by auto
    show ?thesis using True s2 f a n m unfolding e armed_ok_def auto_saves_def setState_def
      by simp
  qed
qed

lemma disjoint_fresh: "A \<subseteq> {n} \<Longrightarrow> n \<notin> B \<Longrightarrow> A \<inter> B = {}"
  by blast

lemma armed_ok_render:
  assumes "armed_ok s"
  shows "armed_ok (render content onSaveChanged s)"
    and "fst ` set (timers (render content onSaveChanged s)) \<inter> fst ` set (timers s) = {}"
proof -
  define s1 where "s1 = s\<lparr>rendered := current s, pendingSince := None\<rparr>"
  define s2 where "s2 = (if effectDeps s1 = Some (rendered s1) \<and> \<not> onSaveChanged then s1
                else autoSaveEffect s1)"
  have fresh: "nextTimer s \<notin> fst ` set (timers s)"
    using assms unfolding armed_ok_def by auto
  have "armed_ok s2 \<and> fst ` set (timers s2) \<inter> fst ` set (timers s) = {}"
  proof (cases "effectDeps s1 = Some (rendered s1) \<and> \<not> onSaveChanged")
    case True
    then have "effectDeps s = Some (current s)" by (simp add: s1_def)
    with assms have e: "timers s = []" unfolding armed_ok_def by auto
    with assms have "armed_ok s1" unfolding armed_ok_def s1_def auto_saves_def by simp
    with True e show ?thesis by (simp add: s2_def)
  next
    case False
    have p: "rendered s1 = current s1" "pendingSince s1 = None"
      "\<forall>t. autoSaveTimeout (current s1) = Some t \<longrightarrow> t < nextTimer s1"
      "timers s1 = [] \<or> (\<exists>i due c. timers s1 = [(i, due, c)] \<and> autoSaveTimeout (current s1) = Some i)"
      "auto_saves s1 = []"
      using assms by (auto simp add: s1_def armed_ok_def auto_saves_def)
    have ok: "armed_ok (autoSaveEffect s1)"
      using p by (rule autoSaveEffect_ok(1))
    have "fst ` set (timers (autoSaveEffect s1)) \<subseteq> {nextTimer s1}"
      using p by (rule autoSaveEffect_ok(2))
    then have "fst ` set (timers (autoSaveEffect s1)) \<subseteq> {nextTimer s}"
      by (simp add: s1_def)
    then have "fst ` set (timers (autoSaveEffect s1)) \<inter> fst ` set (timers s) = {}"
      using fresh by (rule disjoint_fresh)
    with ok show ?thesis by (simp only: s2_def if_not_P [OF False])
  qed
  moreover have r: "render content onSaveChanged s =
     (if initDeps s2 = Some (editorState (rendered s2)) then s2 else initEffect content s2)"
    unfolding render_def Let_def s1_def s2_def ..
  moreover have "timers (initEffect content s2) = timers s2"
    using quiet_initEffect [of s2 content] by (simp add: quiet_def)
  ultimately show "armed_ok (render content onSaveChanged s)"
    and "fst ` set (timers (render content onSaveChanged s)) \<inter> fst ` set (timers s) = {}"
    by (simp_all add: armed_ok_quiet [OF _ quiet_initEffect])
qed

lemma armed_ok_step:
  assumes "armed_ok s" "in_time s e"
  shows "armed_ok (editor_step isLoading content s e)"
proof (cases e)
  case (TitleChange v)
  then show ?thesis using assms(1) by (simp add: armed_ok_quiet [OF _ quiet_handleTitleChange])
next
  case (EditorUpdate v)
  then show ?thesis using assms(1) by (simp add: armed_ok_quiet [OF _ quiet_updateListener])
next
  case ClickSave
  then show ?thesis using assms(1) by (simp add: armed_ok_quiet [OF _ quiet_clickSave])
next
  case (SaveSettled i saved)
  have "quiet s (s\<lparr>inflight := take i (inflight s) @ drop (Suc i) (inflight s)\<rparr>)"
    by (rule quiet_inflight)
  then have "quiet s (settled (inflight s ! i) saved (s\<lparr>inflight := take i (inflight s) @ drop (Suc i) (inflight s)\<rparr>))"
    by (rule quiet_trans) (rule quiet_settled)
  then show ?thesis using assms(1) SaveSettled by (auto intro: armed_ok_quiet)
next
  case (Render b)
  then show ?thesis using assms(1) by (simp add: armed_ok_render)
next
  case (Elapse dt)
  then show ?thesis using assms by (simp add: armed_ok_elapse)
qed

lemma prompt_append:
  "prompt isLoading content s (xs @ ys)
     = (prompt isLoading content s xs
        \<and> prompt isLoading content (editor_run isLoading content xs s) ys)"
  by (induction xs arbitrary: s) (simp_all add: editor_run_def)

lemma armed_ok_run:
  "armed_ok s \<Longrightarrow> prompt isLoading content s evs
     \<Longrightarrow> armed_ok (editor_run isLoading content evs s)"
proof (induction evs arbitrary: s)
  case Nil
  then show ?case by (simp add: editor_run_def)
next
  case (Cons e evs)
  from Cons.prems have "armed_ok (editor_step isLoading content s e)"
    and "prompt isLoading content (editor_step isLoading content s e) evs"
    by (simp_all add: armed_ok_step)
  from Cons.IH [OF this] show ?case by (simp add: editor_run_def)
qed

lemma armed_ok_init: "armed_ok (editor_init ttl)"
  by (simp add: armed_ok_def editor_init_def Let_def auto_saves_def)

lemma auto_saves_run:
  assumes "prompt isLoading content (editor_init ttl) evs"
  shows "auto_saves (editor_run isLoading content evs (editor_init ttl)) = []"
    and "length (timers (editor_run isLoading content evs (editor_init ttl))) \<le> 1"
proof -
  have "armed_ok (editor_run isLoading content evs (editor_init ttl))"
    using armed_ok_init assms by (rule armed_ok_run)
  then show "auto_saves (editor_run isLoading content evs (editor_init ttl)) = []"
    and "length (timers (editor_run isLoading content evs (editor_init ttl))) \<le> 1"
    unfolding armed_ok_def by auto
qed

text \<open>
  C2. Over every sequence of events (edits of the title and of the text, clicks on Save,
  settlements of \<open>onSave\<close>, renders, the passing of time) in which each state update is
  rendered before 2000 ms have passed: over a stretch \<open>post\<close> without an edit,
  \<open>handleAutoSave\<close> calls \<open>onSave\<close> at most once; when the stretch begins with a click on
  Save, the timeouts call \<open>onSave\<close> not at all in it, so the content that the click saves is
  not saved a second time. Both hold because no timeout ever runs \<open>onSave\<close>: at most one
  timeout is pending at any time, and since the effect that sets it also writes its own
  dependency \<open>autoSaveTimeout\<close>, the render that follows clears it: no timeout pending
  before a render is pending after it.
\<close>

theorem autosave_at_most_once:
  assumes "prompt isLoading content (editor_init ttl) (pre @ post)"
  shows "(list_all (\<lambda>e. \<not> is_edit e) post \<longrightarrow>
            length (auto_saves (editor_run isLoading content (pre @ post) (editor_init ttl)))
              \<le> length (auto_saves (editor_run isLoading content pre (editor_init ttl))) + 1)
       \<and> (list_all (\<lambda>e. \<not> is_edit e) post \<and> take 1 post = [ClickSave] \<longrightarrow>
            auto_saves (editor_run isLoading content (pre @ post) (editor_init ttl))
              = auto_saves (editor_run isLoading content pre (editor_init ttl)))
       \<and> auto_saves (editor_run isLoading content (pre @ post) (editor_init ttl)) = []
       \<and> length (timers (editor_run isLoading content (pre @ post) (editor_init ttl))) \<le> 1
       \<and> fst ` set (timers (render content onSaveChanged
                (editor_run isLoading content (pre @ post) (editor_init ttl))))
           \<inter> fst ` set (timers (editor_run isLoading content (pre @ post) (editor_init ttl))) = {}"
proof -
  from assms have "prompt isLoading content (editor_init ttl) pre"
    by (simp add: prompt_append)
  then have "auto_saves (editor_run isLoading content pre (editor_init ttl)) = []"
    by (rule auto_saves_run)
  moreover note auto_saves_run [OF assms]
  moreover have "fst ` set (timers (render content onSaveChanged
                (editor_run isLoading content (pre @ post) (editor_init ttl))))
           \<inter> fst ` set (timers (editor_run isLoading content (pre @ post) (editor_init ttl))) = {}"
    using armed_ok_run [OF armed_ok_init assms] by (rule armed_ok_render)
  ultimately show ?thesis by simp
qed

theorem autosave_at_most_once_witness:
  "prompt False [] (editor_init [])
     ([Render False, EditorUpdate ''text'', TitleChange ''T'', Render False, Elapse 1000,
       Render False, Elapse 1999, Render False]
      @ [ClickSave, Render False, SaveSettled 0 True, Render False, Elapse 5000])
   \<and> list_all (\<lambda>e. \<not> is_edit e) [ClickSave, Render False, SaveSettled 0 True, Render False, Elapse 5000]
   \<and> take 1 [ClickSave, Render False, SaveSettled 0 True, Render False, Elapse 5000] = [ClickSave]
   \<and> auto_saves (editor_run False []
        ([Render False, EditorUpdate ''text'', TitleChange ''T'', Render False, Elapse 1000,
          Render False, Elapse 1999, Render False]
         @ [ClickSave, Render False, SaveSettled 0 True, Render False, Elapse 5000])
        (editor_init [])) = []
   \<and> trace (editor_run False []
        ([Render False, EditorUpdate ''text'', TitleChange ''T'', Render False, Elapse 1000,
          Render False, Elapse 1999, Render False]
         @ [ClickSave, Render False, SaveSettled 0 True, Render False, Elapse 5000])
        (editor_init [])) = [(2999, Manual, OnSave ''text'' ''T'')]"
proof -
  let ?pre = "[Render False, EditorUpdate ''text'', TitleChange ''T'', Render False, Elapse 1000,
       Render False, Elapse 1999, Render False]"
  let ?post = "[ClickSave, Render False, SaveSettled 0 True, Render False, Elapse 5000]"
  have p: "prompt False [] (editor_init []) (?pre @ ?post)"
    by code_simp
  have l: "list_all (\<lambda>e. \<not> is_edit e) ?post"
    by simp
  have t: "trace (editor_run False [] (?pre @ ?post) (editor_init []))
             = [(2999, Manual, OnSave ''text'' ''T'')]"
    by code_simp
  from autosave_at_most_once [OF p]
  have a: "auto_saves (editor_run False [] (?pre @ ?post) (editor_init [])) = []"
    by blast
  have k: "take 1 ?post = [ClickSave]"
    by simp
  show ?thesis by (rule conjI [OF p conjI [OF l conjI [OF k conjI [OF a t]]]])
qed

text \<open>
  C9, as amended. With an empty or whitespace-only title the Save button is disabled, and a
  click on it does nothing: no prompt, no call of \<open>onSave\<close>, the state (the unsaved-changes
  flag included) as before. \<open>handleSave\<close> itself, were it run with such a title, would show
  the prompt about the missing title and do nothing else.
\<close>

theorem clickSave_blank_title:
  assumes "trim (title (rendered s)) = []"
  shows "save_disabled isLoading (rendered s)
       \<and> editor_step isLoading content s ClickSave = s
       \<and> effects (editor_step isLoading content s ClickSave) = effects s
       \<and> hasUnsavedChanges (current (editor_step isLoading content s ClickSave))
           = hasUnsavedChanges (current s)
       \<and> handleSave s = s\<lparr>trace := trace s @ [(clock_ed s, Manual, Alert ''Please enter a title for the recap'')]\<rparr>"
  using assms by (simp add: save_disabled_def clickSave_def handleSave_def record_effect_def)

text \<open>
  The claim as stated has the user prompted. After the text \<open>text\<close> and the title of three
  spaces have been entered and rendered, a click on Save shows no prompt.
\<close>

theorem clickSave_blank_title_counterexample:
  "Alert ''Please enter a title for the recap''
     \<notin> set (effects (editor_run False []
          [Render False, EditorUpdate ''text'', TitleChange ''   '', Render False, ClickSave]
          (editor_init [])))"
  by code_simp

theorem clickSave_blank_title_witness:
  "trim (title (rendered (editor_run False []
          [Render False, EditorUpdate ''text'', TitleChange ''   '', Render False] (editor_init [])))) = []
   \<and> effects (editor_step False []
        (editor_run False []
          [Render False, EditorUpdate ''text'', TitleChange ''   '', Render False] (editor_init []))
        ClickSave) = []"
proof -
  have t: "trim (title (rendered (editor_run False []
          [Render False, EditorUpdate ''text'', TitleChange ''   '', Render False] (editor_init [])))) = []"
    by code_simp
  have e: "effects (editor_run False []
          [Render False, EditorUpdate ''text'', TitleChange ''   '', Render False] (editor_init [])) = []"
    by code_simp
  from clickSave_blank_title [OF t, of False "[]"] e show ?thesis using t by simp
qed

end
